theory Spec2Isabelle
  imports Main "HOL-Library.AList"
begin

text \<open>
  A model of the relay service and of the local agent of the OnSong proxy: the relay's
  connection registry, its request correlator and its gateway handlers, and the agent's
  uplink socket, device registry, connection watchdog and auto-request state machine.
  Each process runs one event loop, so a handler is a function from state to state and
  a run is a list of events folded over the handlers. Timers are entries of a table of
  armed timers, keyed by their handle, holding what their callback closes over; a
  cleared or spent timer is no longer in the table.
\<close>

section \<open>Common JavaScript idioms\<close>

text \<open>
  Header values and optional message fields are \<open>string option\<close>: \<open>None\<close> is
  JavaScript's \<open>undefined\<close>. A value is falsy (\<open>!v\<close>) when it is absent or the
  empty string.
\<close>

definition falsy :: "string option \<Rightarrow> bool" where
  "falsy v = (case v of None \<Rightarrow> True | Some s \<Rightarrow> s = [])"

text \<open>\<open>a || b\<close> on an optional string with a string default.\<close>

definition or_else :: "string option \<Rightarrow> string \<Rightarrow> string" where
  "or_else v d = (case v of None \<Rightarrow> d | Some s \<Rightarrow> if s = [] then d else s)"

text \<open>Decimal rendering of a counter inside a template literal.\<close>

definition digit_char :: "nat \<Rightarrow> char" where
  "digit_char d = char_of (48 + d)"

function dec :: "nat \<Rightarrow> string" where
  "dec n = (if n < 10 then [digit_char n] else dec (n div 10) @ [digit_char (n mod 10)])"
  by pat_completeness auto
termination
  by (relation "measure id") auto

declare dec.simps [simp del]

section \<open>The relay (unnamed/part\_000)\<close>

subsection \<open>Data\<close>

type_synonym sock = nat
type_synonym ref = nat

text \<open>
  The body of a \<open>discover-response\<close> or \<open>api-response\<close> message. The
  \<open>requestId\<close> is the property key the handler table is indexed with; \<open>success\<close> is the
  truthiness of the field; the payload fields are opaque text.
\<close>

record response =
  resp_requestId :: string
  resp_success :: bool
  resp_statusCode :: "nat option"
  resp_headers :: "(string \<times> string) list option"
  resp_data :: string
  resp_devices :: string
  resp_error :: string

record register_msg =
  reg_churchToolsUrl :: "string option"
  reg_secret :: "string option"
  reg_proxyVersion :: "string option"
  reg_uuid :: "string option"
  reg_location :: "string option"
  reg_public :: "bool option"

text \<open>
  One constructor per branch of the \<open>message.type\<close> dispatch of the socket's message
  handler; \<open>OtherType\<close> is any other type value, \<open>Malformed\<close> a payload on which
  \<open>JSON.parse\<close> throws.
\<close>

datatype inbound =
    Register register_msg
  | DiscoverResponse response
  | ApiResponse response
  | Pong
  | OtherType
  | Malformed

text \<open>What the relay writes to a socket.\<close>

datatype outbound =
    ErrorMsg string
  | Registered string
  | Request string string string

text \<open>
  The connection object stored in the \<open>connections\<close> map. Its fields are never
  reassigned after creation; \<open>requestHandlers\<close> refers to the handler table object,
  which is mutated, so the tables live in a store indexed by reference.
\<close>

record conn =
  churchToolsUrl :: string
  secret :: string
  uuid :: string
  location :: string
  public :: bool
  ws :: sock
  requestHandlers :: ref
  registeredAt :: nat
  proxyVersion :: string

text \<open>
  The closure stored in a handler table by \<open>sendToProxy\<close>: it captures the table of
  its connection, its request id, the timer to clear and the promise to resolve.
\<close>

record handler =
  h_table :: ref
  h_requestId :: string
  h_timer :: nat
  h_caller :: nat

text \<open>The closure of the timeout timer armed by \<open>sendToProxy\<close>.\<close>

record timeout_closure =
  tc_table :: ref
  tc_requestId :: string
  tc_caller :: nat
  tc_delay :: nat

datatype settlement = Resolved response | Rejected string

text \<open>
  The relay's state: the module-level variables (\<open>connections\<close>,
  \<open>requestIdCounter\<close>), the store of handler tables, the armed timers, the
  \<open>registeredKey\<close> variable of each socket's connection closure, and logs of the
  effects (\<open>ws.send\<close>, \<open>ws.close\<close>, and the \<open>resolve\<close>/\<open>reject\<close> calls, each with the
  promise it settles; a promise is identified by the counter value of the call that
  created it).

  The counter is a natural number (the source's number is exact up to \<open>2^53\<close>). A
  handler table is a map on the request ids stored in it: the properties a JavaScript
  object inherits from its prototype are not modelled (looked up by a response, they
  are called or throw into the handler's \<open>catch\<close>, and change none of the state
  below). \<open>ws.send\<close> appends to the log and does not throw. The periodic keep-alive ping of the relay only writes to sockets
  and is left out.
\<close>

record relay =
  requestIdCounter :: nat
  connections :: "string \<rightharpoonup> conn"
  tables :: "ref \<Rightarrow> (string \<rightharpoonup> handler)"
  nextRef :: ref
  timers :: "nat \<rightharpoonup> timeout_closure"
  nextTimer :: nat
  registeredKey :: "sock \<rightharpoonup> string"
  sent :: "(sock \<times> outbound) list"
  closeCalls :: "sock list"
  settled :: "(nat \<times> settlement) list"

definition relay_init :: relay where
  "relay_init = \<lparr> requestIdCounter = 0, connections = Map.empty,
     tables = (\<lambda>_. Map.empty), nextRef = 0, timers = Map.empty, nextTimer = 0,
     registeredKey = Map.empty, sent = [], closeCalls = [], settled = [] \<rparr>"

subsection \<open>Lookup and authentication\<close>

definition connectionKey :: "string \<Rightarrow> string \<Rightarrow> string" where
  "connectionKey url uid = url @ '':'' @ uid"

text \<open>
  \<open>getChurchToolsUrl\<close>: the URL parser is the platform's; \<open>hostname_of\<close> stands for
  \<open>new URL(referrer).hostname\<close>, \<open>None\<close> when the constructor throws.
\<close>

definition getChurchToolsUrl :: "(string \<Rightarrow> string option) \<Rightarrow> string option \<Rightarrow> string option" where
  "getChurchToolsUrl hostname_of referrer =
     (case referrer of
        None \<Rightarrow> None
      | Some s \<Rightarrow> if s = [] then None else hostname_of s)"

datatype auth_result = AuthError string nat | AuthOk conn

definition findAndAuthenticateConnection ::
  "relay \<Rightarrow> string \<Rightarrow> string option \<Rightarrow> string option \<Rightarrow> auth_result" where
  "findAndAuthenticateConnection r url presented uid =
     (case uid of
        None \<Rightarrow> AuthError ''Missing UUID'' 401
      | Some u \<Rightarrow>
          if u = [] then AuthError ''Missing UUID'' 401
          else (case connections r (connectionKey url u) of
                  None \<Rightarrow> AuthError ''No proxy connected'' 403
                | Some c \<Rightarrow>
                    if \<not> public c \<and> Some (secret c) \<noteq> presented
                    then AuthError ''Invalid secret'' 403
                    else AuthOk c))"

subsection \<open>The request correlator\<close>

text \<open>
  \<open>sendToProxy(conn, type, data, timeout)\<close>: increments the counter, arms the timeout
  timer, stores the handler under the new request id in the connection's table and
  writes the request to the connection's socket. \<open>data\<close> is opaque text.
\<close>

definition sendToProxy :: "conn \<Rightarrow> string \<Rightarrow> string \<Rightarrow> nat \<Rightarrow> relay \<Rightarrow> relay" where
  "sendToProxy c typ dat timeout r =
     (let n = requestIdCounter r + 1;
          requestId = ''req-'' @ dec n;
          timeoutTimer = nextTimer r;
          t = requestHandlers c
      in r\<lparr> requestIdCounter := n,
            nextTimer := timeoutTimer + 1,
            timers := (timers r)(timeoutTimer \<mapsto>
              \<lparr> tc_table = t, tc_requestId = requestId, tc_caller = n, tc_delay = timeout \<rparr>),
            tables := (tables r)(t := (tables r t)(requestId \<mapsto>
              \<lparr> h_table = t, h_requestId = requestId, h_timer = timeoutTimer, h_caller = n \<rparr>)),
            sent := sent r @ [(ws c, Request typ requestId dat)] \<rparr>)"

text \<open>
  The timeout callback: \<open>delete conn.requestHandlers[requestId]; reject(new
  Error('Request timeout'))\<close>. A timer that is not armed (never set, cleared, or
  already fired) does not run.
\<close>

definition timeoutFires :: "nat \<Rightarrow> relay \<Rightarrow> relay" where
  "timeoutFires tid r =
     (case timers r tid of
        None \<Rightarrow> r
      | Some cl \<Rightarrow>
          r\<lparr> timers := (timers r)(tid := None),
             tables := (tables r)(tc_table cl := (tables r (tc_table cl))(tc_requestId cl := None)),
             settled := settled r @ [(tc_caller cl, Rejected ''Request timeout'')] \<rparr>)"

text \<open>
  The stored handler applied to a response: \<open>clearTimeout(timeoutTimer); delete
  conn.requestHandlers[requestId]; resolve(response)\<close>.
\<close>

definition invokeHandler :: "handler \<Rightarrow> response \<Rightarrow> relay \<Rightarrow> relay" where
  "invokeHandler h m r =
     r\<lparr> timers := (timers r)(h_timer h := None),
        tables := (tables r)(h_table h := (tables r (h_table h))(h_requestId h := None)),
        settled := settled r @ [(h_caller h, Resolved m)] \<rparr>"

subsection \<open>Socket lifecycle\<close>

text \<open>The \<open>register\<close> branch of the message handler of socket \<open>s\<close>, at clock \<open>now\<close>.\<close>

definition onRegister :: "sock \<Rightarrow> register_msg \<Rightarrow> nat \<Rightarrow> relay \<Rightarrow> relay" where
  "onRegister s m now r =
     (if falsy (reg_churchToolsUrl m) \<or> falsy (reg_secret m) \<or> falsy (reg_uuid m)
      then r\<lparr> sent := sent r @ [(s, ErrorMsg ''Missing churchToolsUrl, secret, or uuid'')],
               closeCalls := closeCalls r @ [s] \<rparr>
      else
        let url = or_else (reg_churchToolsUrl m) [];
            uid = or_else (reg_uuid m) [];
            key = connectionKey url uid;
            t = nextRef r
        in r\<lparr> registeredKey := (registeredKey r)(s \<mapsto> key),
              nextRef := t + 1,
              tables := (tables r)(t := Map.empty),
              connections := (connections r)(key \<mapsto>
                \<lparr> churchToolsUrl = url,
                  secret = or_else (reg_secret m) [],
                  uuid = uid,
                  location = or_else (reg_location m) [],
                  public = (case reg_public m of None \<Rightarrow> False | Some b \<Rightarrow> b),
                  ws = s,
                  requestHandlers = t,
                  registeredAt = now,
                  proxyVersion = or_else (reg_proxyVersion m) ''unknown'' \<rparr>),
              sent := sent r @ [(s, Registered ''Successfully registered'')] \<rparr>)"

text \<open>The \<open>discover-response\<close> / \<open>api-response\<close> branch of socket \<open>s\<close>.\<close>

definition onResponse :: "sock \<Rightarrow> response \<Rightarrow> relay \<Rightarrow> relay" where
  "onResponse s m r =
     (case registeredKey r s of
        None \<Rightarrow> r
      | Some key \<Rightarrow>
          (case connections r key of
             None \<Rightarrow> r
           | Some c \<Rightarrow>
               (case tables r (requestHandlers c) (resp_requestId m) of
                  None \<Rightarrow> r
                | Some h \<Rightarrow> invokeHandler h m r)))"

fun onMessage :: "sock \<Rightarrow> inbound \<Rightarrow> nat \<Rightarrow> relay \<Rightarrow> relay" where
  "onMessage s (Register m) now r = onRegister s m now r"
| "onMessage s (DiscoverResponse m) now r = onResponse s m r"
| "onMessage s (ApiResponse m) now r = onResponse s m r"
| "onMessage s Pong now r = r"
| "onMessage s OtherType now r = r"
| "onMessage s Malformed now r = r"

text \<open>The \<open>close\<close> handler of socket \<open>s\<close>.\<close>

definition onClose :: "sock \<Rightarrow> relay \<Rightarrow> relay" where
  "onClose s r =
     (case registeredKey r s of
        None \<Rightarrow> r
      | Some key \<Rightarrow> r\<lparr> connections := (connections r)(key := None) \<rparr>)"

subsection \<open>Gateway handlers\<close>

record http_request =
  hdr_referer :: "string option"
  hdr_referrer :: "string option"
  hdr_x_auth :: "string option"
  hdr_x_id :: "string option"
  hdr_onsongip :: "string option"
  hdr_onsongport :: "string option"
  req_method :: string
  req_url :: string
  req_body :: string

text \<open>
  What \<open>res.setHeader\<close> and the writing of the status line throw: a header name
  that is not an HTTP token, a header value with a character that may not appear in
  one, a status code outside 100..999.
\<close>

datatype thrown =
    InvalidHeaderName string
  | InvalidHeaderValue string
  | InvalidStatusCode nat

text \<open>
  The JSON bodies of the answers. \<open>ThrownJson e x\<close> is \<open>{error: e, message: m}\<close>
  with \<open>m\<close> the message text of the library's error \<open>x\<close>.
\<close>

datatype http_body =
    ErrorJson string
  | ErrorMessageJson string string
  | ThrownJson string thrown
  | RegisteredJson bool
  | DevicesJson string
  | DataJson string

record http_response =
  status :: nat
  body :: http_body
  set_headers :: "(string \<times> string) list"

definition json :: "nat \<Rightarrow> http_body \<Rightarrow> http_response" where
  "json st b = \<lparr> status = st, body = b, set_headers = [] \<rparr>"

text \<open>\<open>req.headers['referer'] || req.headers['referrer']\<close>\<close>

definition referrer_of :: "http_request \<Rightarrow> string option" where
  "referrer_of req = (if falsy (hdr_referer req) then hdr_referrer req else hdr_referer req)"

text \<open>\<open>app.get('/proxycheck')\<close>\<close>

definition proxycheck :: "(string \<Rightarrow> string option) \<Rightarrow> relay \<Rightarrow> http_request \<Rightarrow> http_response" where
  "proxycheck hostname_of r req =
     (if falsy (hdr_x_id req) then json 401 (ErrorJson ''Missing X-ID header'')
      else if falsy (hdr_x_auth req) then json 401 (ErrorJson ''Missing X-AUTH header'')
      else if falsy (getChurchToolsUrl hostname_of (referrer_of req))
      then json 400 (ErrorJson ''Invalid or missing referrer'')
      else
        (case connections r (connectionKey
                (or_else (getChurchToolsUrl hostname_of (referrer_of req)) [])
                (or_else (hdr_x_id req) [])) of
           None \<Rightarrow> json 200 (RegisteredJson False)
         | Some c \<Rightarrow>
             if Some (secret c) \<noteq> hdr_x_auth req then json 200 (RegisteredJson False)
             else json 200 (RegisteredJson True)))"

text \<open>
  A data-path handler runs up to its \<open>await sendToProxy(...)\<close>: it has answered, or
  it relays a message on a connection. The second half maps the settled promise to the
  answer.
\<close>

datatype pre_await = Respond http_response | Relay conn string string

text \<open>\<open>app.get('/discover')\<close>, up to the await.\<close>

definition discover_begin :: "(string \<Rightarrow> string option) \<Rightarrow> relay \<Rightarrow> http_request \<Rightarrow> pre_await" where
  "discover_begin hostname_of r req =
     (if falsy (hdr_x_id req) then Respond (json 401 (ErrorJson ''Missing X-ID header''))
      else if falsy (getChurchToolsUrl hostname_of (referrer_of req))
      then Respond (json 400 (ErrorJson ''Invalid or missing referrer''))
      else
        (case findAndAuthenticateConnection r
                (or_else (getChurchToolsUrl hostname_of (referrer_of req)) [])
                (hdr_x_auth req) (hdr_x_id req) of
           AuthError e st \<Rightarrow> Respond (json st (ErrorMessageJson e e))
         | AuthOk c \<Rightarrow> Relay c ''discover'' []))"

text \<open>\<open>app.get('/discover')\<close>, after the await: the \<open>try\<close> body and its \<open>catch\<close>.\<close>

fun discover_finish :: "settlement \<Rightarrow> http_response" where
  "discover_finish (Resolved m) =
     (if resp_success m then json 200 (DevicesJson (resp_devices m))
      else json 500 (ErrorMessageJson ''Discovery failed'' (resp_error m)))"
| "discover_finish (Rejected e) = json 504 (ErrorMessageJson ''Gateway timeout'' e)"

text \<open>
  \<open>app.all('/api/*')\<close>, up to the await. The relayed payload (target address, port,
  method, path, forwarded headers, body) is carried as text.
\<close>

definition api_payload :: "http_request \<Rightarrow> string" where
  "api_payload req =
     or_else (hdr_onsongip req) [] @ '':'' @ or_else (hdr_onsongport req) ''80'' @ '' '' @
     req_method req @ '' '' @ req_url req @ '' '' @ req_body req"

definition api_begin :: "(string \<Rightarrow> string option) \<Rightarrow> relay \<Rightarrow> http_request \<Rightarrow> pre_await" where
  "api_begin hostname_of r req =
     (if falsy (hdr_x_id req) then Respond (json 401 (ErrorJson ''Missing X-ID header''))
      else if falsy (hdr_onsongip req)
      then Respond (json 400 (ErrorJson ''Missing ONSONGIP header''))
      else if falsy (getChurchToolsUrl hostname_of (referrer_of req))
      then Respond (json 400 (ErrorJson ''Invalid or missing referrer''))
      else
        (case findAndAuthenticateConnection r
                (or_else (getChurchToolsUrl hostname_of (referrer_of req)) [])
                (hdr_x_auth req) (hdr_x_id req) of
           AuthError e st \<Rightarrow> Respond (json st (ErrorMessageJson e e))
         | AuthOk c \<Rightarrow> Relay c ''api-request'' (api_payload req)))"

text \<open>
  The checks of \<open>res.setHeader(name, value)\<close>: the name is a non-empty sequence of
  token characters (letters, digits and \<open>!#$%&'*+-.^_`|~\<close>), the value holds no control
  character other than the tab.
\<close>

definition tokenChar :: "char \<Rightarrow> bool" where
  "tokenChar c \<longleftrightarrow>
     (let n = (of_char c :: nat)
      in (48 \<le> n \<and> n \<le> 57) \<or> (65 \<le> n \<and> n \<le> 90) \<or> (97 \<le> n \<and> n \<le> 122) \<or>
         n \<in> {33, 35, 36, 37, 38, 39, 42, 43, 45, 46, 94, 95, 96, 124, 126})"

definition validHeaderName :: "string \<Rightarrow> bool" where
  "validHeaderName name \<longleftrightarrow> name \<noteq> [] \<and> list_all tokenChar name"

definition validHeaderValue :: "string \<Rightarrow> bool" where
  "validHeaderValue v \<longleftrightarrow>
     list_all (\<lambda>c. (of_char c :: nat) = 9 \<or> (32 \<le> (of_char c :: nat) \<and> (of_char c :: nat) \<noteq> 127)) v"

text \<open>
  \<open>Object.keys(response.headers).forEach(key => res.setHeader(key, ...))\<close>: the headers
  set before the first call that throws, and what that call threw.
\<close>

fun setHeaders :: "(string \<times> string) list \<Rightarrow> (string \<times> string) list \<times> thrown option" where
  "setHeaders [] = ([], None)"
| "setHeaders ((name, v) # hs) =
     (if \<not> validHeaderName name then ([], Some (InvalidHeaderName name))
      else if \<not> validHeaderValue v then ([], Some (InvalidHeaderValue name))
      else (case setHeaders hs of (done_hs, e) \<Rightarrow> ((name, v) # done_hs, e)))"

text \<open>
  \<open>app.all('/api/*')\<close>, after the await: the \<open>try\<close> body and its \<open>catch\<close>. On
  success the agent's headers are set and the status is \<open>response.statusCode || 200\<close>.
  A header that \<open>res.setHeader\<close> refuses, or a status outside 100..999 when the
  answer is written, throws inside the \<open>try\<close>: the \<open>catch\<close> answers 504 on the same
  response object, which keeps the headers set so far.
\<close>

fun api_finish :: "settlement \<Rightarrow> http_response" where
  "api_finish (Resolved m) =
     (if resp_success m
      then
        (case setHeaders (case resp_headers m of None \<Rightarrow> [] | Some hs \<Rightarrow> hs) of
           (done_hs, Some x) \<Rightarrow>
             \<lparr> status = 504, body = ThrownJson ''Gateway timeout'' x, set_headers = done_hs \<rparr>
         | (done_hs, None) \<Rightarrow>
             let code = (case resp_statusCode m of
                           None \<Rightarrow> 200
                         | Some c \<Rightarrow> if c = 0 then 200 else c)
             in if 100 \<le> code \<and> code \<le> 999
                then \<lparr> status = code, body = DataJson (resp_data m), set_headers = done_hs \<rparr>
                else \<lparr> status = 504, body = ThrownJson ''Gateway timeout'' (InvalidStatusCode code),
                       set_headers = done_hs \<rparr>)
      else json 502 (ErrorMessageJson ''Bad Gateway'' (resp_error m)))"
| "api_finish (Rejected e) = json 504 (ErrorMessageJson ''Gateway timeout'' e)"

subsection \<open>The relay as a transition system\<close>

datatype endpoint = ProxyCheck | Discover | Api

text \<open>
  The part of a gateway handler that changes the relay's state: a relayed call goes
  through \<open>sendToProxy\<close> with the default timeout.
\<close>

definition relay_call :: "pre_await \<Rightarrow> relay \<Rightarrow> relay" where
  "relay_call p r = (case p of Respond _ \<Rightarrow> r | Relay c typ dat \<Rightarrow> sendToProxy c typ dat 30000 r)"

fun onHttpRequest :: "(string \<Rightarrow> string option) \<Rightarrow> endpoint \<Rightarrow> http_request \<Rightarrow> relay \<Rightarrow> relay" where
  "onHttpRequest hostname_of ProxyCheck req r = r"
| "onHttpRequest hostname_of Discover req r = relay_call (discover_begin hostname_of r req) r"
| "onHttpRequest hostname_of Api req r = relay_call (api_begin hostname_of r req) r"

text \<open>
  The events the event loop delivers to the relay: a message or a close on a socket,
  the firing of a timer, a tenant request.
\<close>

datatype relay_event =
    SocketMessage sock inbound nat
  | SocketClose sock
  | TimerFires nat
  | HttpRequest endpoint http_request

fun relay_step :: "(string \<Rightarrow> string option) \<Rightarrow> relay \<Rightarrow> relay_event \<Rightarrow> relay" where
  "relay_step hostname_of r (SocketMessage s m now) = onMessage s m now r"
| "relay_step hostname_of r (SocketClose s) = onClose s r"
| "relay_step hostname_of r (TimerFires tid) = timeoutFires tid r"
| "relay_step hostname_of r (HttpRequest ep req) = onHttpRequest hostname_of ep req r"

definition relay_run :: "(string \<Rightarrow> string option) \<Rightarrow> relay_event list \<Rightarrow> relay" where
  "relay_run hostname_of evs = foldl (relay_step hostname_of) relay_init evs"

section \<open>The agent (proxy-template/server.js)\<close>

subsection \<open>Data\<close>

text \<open>A service description of the discovery library; \<open>txt\<close> is the TXT record.\<close>

record service =
  svc_name :: string
  svc_type :: string
  svc_host :: string
  svc_addresses :: "string list option"
  svc_port :: nat
  svc_txt :: "(string \<times> string) list option"

record device =
  dev_name :: string
  dev_type :: string
  dev_host :: string
  dev_addresses :: "string list"
  dev_port :: nat
  dev_txt :: "(string \<times> string) list"

datatype phase = AuthRetry | PingKeepalive

text \<open>
  The state object of \<open>startAuthRetry\<close> / \<open>startPingKeepalive\<close>. Its two timer fields
  are assigned once, before the function returns.
\<close>

record auto_state =
  as_deviceId :: string
  as_authToken :: string
  as_deviceIp :: string
  as_devicePort :: nat
  as_method :: "string option"
  as_body :: "string option"
  as_state :: phase
  intervalTimer :: "nat option"
  timeoutTimer :: "nat option"
  startTime :: int

text \<open>
  What an armed timer runs when it fires: the removal of a device (\<open>down\<close> handler),
  the watchdog's check, the reconnect scheduled by the watchdog, the reconnect
  scheduled by the close handler (which resets \<open>reconnectTimer\<close> first), the two
  interval callbacks of the auto-request states (each closes over its state object)
  and their expiry (closes over the state key).
\<close>

datatype callback =
    RemoveDevice string
  | WatchdogCheck
  | Reconnect
  | ReconnectAfterClose
  | AuthRetryTick auto_state
  | PingKeepaliveTick auto_state
  | AutoRequestExpiry string

record timer =
  callback :: callback
  delay_ms :: nat
  repeats :: bool

text \<open>The outcome of an \<open>axios\<close> call: a response (any status), or a thrown error.\<close>

datatype http_outcome =
    HttpResponse nat "(string \<times> string) list" string
  | HttpError string

record api_request =
  ar_requestId :: "string option"
  targetIp :: "string option"
  targetPort :: "nat option"
  ar_method :: string
  ar_path :: string
  ar_body :: "string option"

text \<open>One constructor per branch of \<open>handleMessage\<close>.\<close>

datatype agent_msg =
    DiscoverMsg "string option"
  | ApiRequestMsg api_request
  | PingMsg
  | OtherMsg
  | MalformedMsg

text \<open>
  What the agent writes to its socket; \<open>RegisterOut\<close> is the \<open>register\<close> message, whose
  fields come from the configuration file.
\<close>

datatype agent_out =
    RegisterOut
  | DiscoverResponseOut "string option" "device list"
  | ApiResponseOut "string option" http_outcome
  | PongOut

text \<open>\<open>readyState\<close> of a socket of the \<open>ws\<close> package\<close>

datatype ready_state = CONNECTING | OPEN | CLOSING | CLOSED

text \<open>The code that resumes when an awaited device call completes.\<close>

datatype continuation =
    ApiRequestCont api_request
  | AuthRetryCont auto_state
  | PingKeepaliveCont auto_state

text \<open>
  The agent's module-level variables (\<open>ws\<close>, \<open>isConnected\<close>, \<open>lastPingTime\<close>,
  \<open>watchdogTimer\<close>, \<open>reconnectTimer\<close>, the three maps), the sockets it has created
  with their \<open>readyState\<close>, the armed timers, the device calls in flight and logs of
  the effects (socket writes, \<open>ws.terminate()\<close>, calls of \<open>connect()\<close>). \<open>exited\<close> is
  set when an exception escapes a handler of the event loop: nothing catches it, so the
  process ends. Clock readings (\<open>Date.now()\<close>) are integers passed to the handlers.
  Service installation and \<open>shutdown\<close> (which ends the process) are not part of the
  model, the \<open>error\<close> handler of a socket only logs, and the configured service URL
  is taken to be one that \<open>new WebSocket\<close> accepts.
\<close>

record agent =
  agent_ws :: "sock option"
  isConnected :: bool
  lastPingTime :: "int option"
  watchdogTimer :: "nat option"
  reconnectTimer :: "nat option"
  deviceRegistry :: "(string \<times> device) list"
  deviceRemovalTimers :: "string \<rightharpoonup> nat"
  autoRequestStates :: "string \<rightharpoonup> auto_state"
  atimers :: "nat \<rightharpoonup> timer"
  anextTimer :: nat
  inflight :: "nat \<rightharpoonup> continuation"
  nextCall :: nat
  sockets :: "sock \<rightharpoonup> ready_state"
  nextSock :: sock
  wsSent :: "(sock \<times> agent_out) list"
  terminated :: "sock list"
  connectCalls :: nat
  exited :: bool

definition agent_init :: agent where
  "agent_init = \<lparr> agent_ws = None, isConnected = False, lastPingTime = None,
     watchdogTimer = None, reconnectTimer = None, deviceRegistry = [],
     deviceRemovalTimers = Map.empty, autoRequestStates = Map.empty, atimers = Map.empty,
     anextTimer = 0, inflight = Map.empty, nextCall = 0, sockets = Map.empty, nextSock = 0,
     wsSent = [], terminated = [], connectCalls = 0, exited = False \<rparr>"

definition PING_TIMEOUT_MS :: int where
  "PING_TIMEOUT_MS = 70000"

definition AUTO_REQUEST_INTERVAL_MS :: nat where
  "AUTO_REQUEST_INTERVAL_MS = 2000"

definition AUTO_REQUEST_DURATION_MS :: nat where
  "AUTO_REQUEST_DURATION_MS = 60000"

text \<open>\<open>setTimeout\<close> / \<open>setInterval\<close>: the handle returned is \<open>anextTimer\<close> of the state before.\<close>

definition setTimer :: "callback \<Rightarrow> nat \<Rightarrow> bool \<Rightarrow> agent \<Rightarrow> agent" where
  "setTimer cb ms rep a =
     a\<lparr> atimers := (atimers a)(anextTimer a \<mapsto> \<lparr> callback = cb, delay_ms = ms, repeats = rep \<rparr>),
        anextTimer := anextTimer a + 1 \<rparr>"

text \<open>\<open>clearTimeout\<close> / \<open>clearInterval\<close>\<close>

definition clearTimer :: "nat \<Rightarrow> agent \<Rightarrow> agent" where
  "clearTimer tid a = a\<lparr> atimers := (atimers a)(tid := None) \<rparr>"

text \<open>
  \<open>ws.send\<close> on the module's socket variable. On \<open>null\<close> the call throws, and the
  \<open>ws\<close> package throws when the socket is still connecting. The variable never holds
  a closing or closed socket (lemma \<open>ws_live\<close> below); a write to one is taken to throw
  as well.
\<close>

definition wsSend :: "agent_out \<Rightarrow> agent \<Rightarrow> agent option" where
  "wsSend m a = (case agent_ws a of
                   None \<Rightarrow> None
                 | Some s \<Rightarrow>
                     if sockets a s = Some OPEN
                     then Some (a\<lparr> wsSent := wsSent a @ [(s, m)] \<rparr>)
                     else None)"

subsection \<open>Device registry\<close>

definition getDeviceId :: "service \<Rightarrow> string" where
  "getDeviceId svc =
     (case svc_txt svc of
        None \<Rightarrow> ''unknown-device''
      | Some t \<Rightarrow>
          (case map_of t ''deviceid'' of
             None \<Rightarrow> ''unknown-device''
           | Some d \<Rightarrow> if d = [] then ''unknown-device'' else d))"

text \<open>\<open>service.txt || {}\<close>\<close>

definition txt_of :: "service \<Rightarrow> (string \<times> string) list" where
  "txt_of svc = (case svc_txt svc of None \<Rightarrow> [] | Some t \<Rightarrow> t)"

definition device_of :: "service \<Rightarrow> device" where
  "device_of svc =
     \<lparr> dev_name = svc_name svc, dev_type = svc_type svc, dev_host = svc_host svc,
       dev_addresses = (case svc_addresses svc of None \<Rightarrow> [] | Some as \<Rightarrow> as),
       dev_port = svc_port svc, dev_txt = txt_of svc \<rparr>"

text \<open>The filter at the head of the \<open>up\<close> handler.\<close>

definition accepted :: "service \<Rightarrow> bool" where
  "accepted svc =
     ((map_of (txt_of svc) ''role'' = Some ''server'' \<or> map_of (txt_of svc) ''role'' = Some ''client'')
      \<and> \<not> falsy (map_of (txt_of svc) ''deviceid''))"

text \<open>\<open>device.addresses.find(addr => !addr.includes(':'))\<close>\<close>

definition ipv4Address :: "device \<Rightarrow> string option" where
  "ipv4Address d = find (\<lambda>addr. CHR '':'' \<notin> set addr) (dev_addresses d)"

text \<open>\<open>browser.on('up')\<close>\<close>

definition onUp :: "service \<Rightarrow> agent \<Rightarrow> agent" where
  "onUp svc a =
     (if \<not> accepted svc then a
      else
        let deviceId = getDeviceId svc;
            a1 = (case deviceRemovalTimers a deviceId of
                    None \<Rightarrow> a
                  | Some tid \<Rightarrow>
                      (clearTimer tid a)\<lparr> deviceRemovalTimers := (deviceRemovalTimers a)(deviceId := None) \<rparr>);
            d = device_of svc;
            isNew = (map_of (deviceRegistry a1) deviceId = None)
        in if isNew \<or> \<not> falsy (ipv4Address d)
           then a1\<lparr> deviceRegistry := AList.update deviceId d (deviceRegistry a1) \<rparr>
           else a1)"

text \<open>\<open>browser.on('down')\<close>\<close>

definition onDown :: "service \<Rightarrow> agent \<Rightarrow> agent" where
  "onDown svc a =
     (let deviceId = getDeviceId svc
      in if map_of (deviceRegistry a) deviceId = None then a
         else
           let timerId = anextTimer a;
               a1 = setTimer (RemoveDevice deviceId) (1000 * 600) False a
           in a1\<lparr> deviceRemovalTimers := (deviceRemovalTimers a1)(deviceId \<mapsto> timerId) \<rparr>)"

text \<open>The callback of the removal timer.\<close>

definition removeDevice :: "string \<Rightarrow> agent \<Rightarrow> agent" where
  "removeDevice deviceId a =
     (if map_of (deviceRegistry a) deviceId = None then a
      else a\<lparr> deviceRegistry := AList.delete deviceId (deviceRegistry a),
              deviceRemovalTimers := (deviceRemovalTimers a)(deviceId := None) \<rparr>)"

definition getDiscoveredDevices :: "agent \<Rightarrow> device list" where
  "getDiscoveredDevices a = map snd (deviceRegistry a)"

subsection \<open>Connection watchdog\<close>

definition stopWatchdog :: "agent \<Rightarrow> agent" where
  "stopWatchdog a =
     (case watchdogTimer a of
        None \<Rightarrow> a
      | Some t \<Rightarrow> (clearTimer t a)\<lparr> watchdogTimer := None \<rparr>)\<lparr> lastPingTime := None \<rparr>"

definition startWatchdog :: "int \<Rightarrow> agent \<Rightarrow> agent" where
  "startWatchdog now a =
     (let a1 = (case watchdogTimer a of None \<Rightarrow> a | Some t \<Rightarrow> clearTimer t a);
          a2 = a1\<lparr> lastPingTime := Some now \<rparr>;
          tid = anextTimer a2
      in (setTimer WatchdogCheck 10000 True a2)\<lparr> watchdogTimer := Some tid \<rparr>)"

definition resetWatchdog :: "int \<Rightarrow> agent \<Rightarrow> agent" where
  "resetWatchdog now a = a\<lparr> lastPingTime := Some now \<rparr>"

text \<open>
  \<open>ws.terminate()\<close> on socket \<open>s\<close>: the call is logged; a socket that is not closed
  yet is destroyed and is closing until its \<open>close\<close> event.
\<close>

definition terminate :: "sock \<Rightarrow> agent \<Rightarrow> agent" where
  "terminate s a =
     a\<lparr> terminated := terminated a @ [s],
        sockets := (if sockets a s = Some CONNECTING \<or> sockets a s = Some OPEN
                    then (sockets a)(s \<mapsto> CLOSING) else sockets a) \<rparr>"

text \<open>
  The interval callback of the watchdog at clock \<open>now\<close>. \<open>Date.now() - null\<close> is
  \<open>Date.now()\<close>.
\<close>

definition watchdogCheck :: "int \<Rightarrow> agent \<Rightarrow> agent" where
  "watchdogCheck now a =
     (let timeSinceLastPing = now - (case lastPingTime a of None \<Rightarrow> 0 | Some t \<Rightarrow> t)
      in if timeSinceLastPing > PING_TIMEOUT_MS
         then
           let a1 = stopWatchdog a;
               a2 = (case agent_ws a1 of
                       None \<Rightarrow> a1
                     | Some s \<Rightarrow> (terminate s a1)\<lparr> agent_ws := None \<rparr>);
               a3 = a2\<lparr> isConnected := False \<rparr>
           in setTimer Reconnect 1000 False a3
         else a)"

subsection \<open>The uplink socket\<close>

text \<open>
  \<open>connect()\<close>: nothing happens while the socket in the variable is connecting or
  open; otherwise a new socket is created and stored. Its handlers are the events
  \<open>WsOpen\<close>, \<open>WsClose\<close> and \<open>Message\<close> below.
\<close>

definition connect :: "agent \<Rightarrow> agent" where
  "connect a =
     (let a0 = a\<lparr> connectCalls := connectCalls a + 1 \<rparr>
      in if (case agent_ws a of
               None \<Rightarrow> False
             | Some s \<Rightarrow> sockets a s = Some CONNECTING \<or> sockets a s = Some OPEN)
         then a0
         else a0\<lparr> agent_ws := Some (nextSock a),
                  sockets := (sockets a)(nextSock a \<mapsto> CONNECTING),
                  nextSock := nextSock a + 1 \<rparr>)"

text \<open>
  \<open>ws.on('open')\<close> of socket \<open>s\<close> at clock \<open>now\<close>. The handler writes to the socket
  in the variable \<open>ws\<close>, whichever that is; an exception of that write is caught by
  nothing.
\<close>

definition onWsOpen :: "sock \<Rightarrow> int \<Rightarrow> agent \<Rightarrow> agent" where
  "onWsOpen s now a =
     (let a1 = a\<lparr> sockets := (sockets a)(s \<mapsto> OPEN), isConnected := True \<rparr>
      in case wsSend RegisterOut a1 of
           None \<Rightarrow> a1\<lparr> exited := True \<rparr>
         | Some a2 \<Rightarrow>
             let a3 = (case reconnectTimer a2 of
                         None \<Rightarrow> a2
                       | Some t \<Rightarrow> (clearTimer t a2)\<lparr> reconnectTimer := None \<rparr>)
             in startWatchdog now a3)"

text \<open>\<open>ws.on('close')\<close> of socket \<open>s\<close>\<close>

definition onWsClose :: "sock \<Rightarrow> agent \<Rightarrow> agent" where
  "onWsClose s a =
     (let a1 = a\<lparr> sockets := (sockets a)(s \<mapsto> CLOSED), isConnected := False, agent_ws := None \<rparr>;
          a2 = stopWatchdog a1
      in case reconnectTimer a2 of
           Some t \<Rightarrow> a2
         | None \<Rightarrow>
             (setTimer ReconnectAfterClose 5000 False a2)\<lparr> reconnectTimer := Some (anextTimer a2) \<rparr>)"

subsection \<open>Auto-request state machine\<close>

definition getAutoRequestStateKey :: "string \<Rightarrow> string \<Rightarrow> string" where
  "getAutoRequestStateKey deviceId authToken = deviceId @ '':'' @ authToken"

definition cleanupAutoRequests :: "string \<Rightarrow> agent \<Rightarrow> agent" where
  "cleanupAutoRequests stateKey a =
     (case autoRequestStates a stateKey of
        None \<Rightarrow> a
      | Some st \<Rightarrow>
          let a1 = (case intervalTimer st of None \<Rightarrow> a | Some t \<Rightarrow> clearTimer t a);
              a2 = (case timeoutTimer st of None \<Rightarrow> a1 | Some t \<Rightarrow> clearTimer t a1)
          in a2\<lparr> autoRequestStates := (autoRequestStates a2)(stateKey := None) \<rparr>)"

definition startAuthRetry ::
  "string \<Rightarrow> string \<Rightarrow> string \<Rightarrow> nat \<Rightarrow> string \<Rightarrow> string option \<Rightarrow> int \<Rightarrow> agent \<Rightarrow> agent" where
  "startAuthRetry deviceId authToken deviceIp devicePort meth bdy now a =
     (let stateKey = getAutoRequestStateKey deviceId authToken;
          a1 = cleanupAutoRequests stateKey a;
          st = \<lparr> as_deviceId = deviceId, as_authToken = authToken, as_deviceIp = deviceIp,
                 as_devicePort = devicePort, as_method = Some meth, as_body = bdy,
                 as_state = AuthRetry,
                 intervalTimer = Some (anextTimer a1),
                 timeoutTimer = Some (anextTimer a1 + 1),
                 startTime = now \<rparr>;
          a2 = setTimer (AuthRetryTick st) AUTO_REQUEST_INTERVAL_MS True a1;
          a3 = setTimer (AutoRequestExpiry stateKey) AUTO_REQUEST_DURATION_MS False a2
      in a3\<lparr> autoRequestStates := (autoRequestStates a3)(stateKey \<mapsto> st) \<rparr>)"

definition startPingKeepalive :: "string \<Rightarrow> string \<Rightarrow> string \<Rightarrow> nat \<Rightarrow> int \<Rightarrow> agent \<Rightarrow> agent" where
  "startPingKeepalive deviceId authToken deviceIp devicePort now a =
     (let stateKey = getAutoRequestStateKey deviceId authToken;
          a1 = cleanupAutoRequests stateKey a;
          st = \<lparr> as_deviceId = deviceId, as_authToken = authToken, as_deviceIp = deviceIp,
                 as_devicePort = devicePort, as_method = None, as_body = None,
                 as_state = PingKeepalive,
                 intervalTimer = Some (anextTimer a1),
                 timeoutTimer = Some (anextTimer a1 + 1),
                 startTime = now \<rparr>;
          a2 = setTimer (PingKeepaliveTick st) AUTO_REQUEST_INTERVAL_MS True a1;
          a3 = setTimer (AutoRequestExpiry stateKey) AUTO_REQUEST_DURATION_MS False a2
      in a3\<lparr> autoRequestStates := (autoRequestStates a3)(stateKey \<mapsto> st) \<rparr>)"

text \<open>A device call is issued: the code after its \<open>await\<close> is kept until it completes.\<close>

definition issueCall :: "continuation \<Rightarrow> agent \<Rightarrow> agent" where
  "issueCall k a = a\<lparr> inflight := (inflight a)(nextCall a \<mapsto> k), nextCall := nextCall a + 1 \<rparr>"

text \<open>
  The rest of the auth-retry interval callback once its request has completed: on
  status 200 it clears the timers of its own state object and switches to the
  keepalive.
\<close>

definition authRetryDone :: "auto_state \<Rightarrow> http_outcome \<Rightarrow> int \<Rightarrow> agent \<Rightarrow> agent" where
  "authRetryDone st res now a =
     (case res of
        HttpError e \<Rightarrow> a
      | HttpResponse code hs dat \<Rightarrow>
          if code = 200
          then
            let a1 = (case intervalTimer st of None \<Rightarrow> a | Some t \<Rightarrow> clearTimer t a);
                a2 = (case timeoutTimer st of None \<Rightarrow> a1 | Some t \<Rightarrow> clearTimer t a1)
            in startPingKeepalive (as_deviceId st) (as_authToken st) (as_deviceIp st)
                 (as_devicePort st) now a2
          else a)"

subsection \<open>Messages from the relay\<close>

text \<open>\<open>path.match(/^\/api\/([^\/]+)\/auth$/)\<close>: the captured token, if the path matches.\<close>

definition authMatch :: "string \<Rightarrow> string option" where
  "authMatch path =
     (if take 5 path = ''/api/''
      then
        let rest = drop 5 path;
            token = takeWhile (\<lambda>c. c \<noteq> CHR ''/'') rest;
            suffix = dropWhile (\<lambda>c. c \<noteq> CHR ''/'') rest
        in if token \<noteq> [] \<and> suffix = ''/auth'' then Some token else None
      else None)"

text \<open>The loop over \<open>deviceRegistry.entries()\<close> that looks for the target address.\<close>

definition findDeviceId :: "string \<Rightarrow> (string \<times> device) list \<Rightarrow> string option" where
  "findDeviceId ip reg = map_option fst (find (\<lambda>(i, d). ip \<in> set (dev_addresses d)) reg)"

text \<open>
  The \<open>api-request\<close> branch after \<open>await makeDeviceRequest(...)\<close>, with the outcome of
  the device call. A failed write of the response throws into the handler's
  \<open>catch\<close>, after the auto-request has been started.
\<close>

definition autoRequestTrigger :: "api_request \<Rightarrow> string \<Rightarrow> http_outcome \<Rightarrow> int \<Rightarrow> agent \<Rightarrow> agent" where
  "autoRequestTrigger m ip res now a =
     (case authMatch (ar_path m) of
        None \<Rightarrow> a
      | Some authToken \<Rightarrow>
          (case findDeviceId ip (deviceRegistry a) of
             None \<Rightarrow> a
           | Some deviceId \<Rightarrow>
               if deviceId = [] then a
               else
                 (case res of
                    HttpError e \<Rightarrow>
                      startAuthRetry deviceId authToken ip
                        (case targetPort m of None \<Rightarrow> 80 | Some p \<Rightarrow> p) (ar_method m) (ar_body m) now a
                  | HttpResponse code hs dat \<Rightarrow>
                      if code \<ge> 400
                      then startAuthRetry deviceId authToken ip
                             (case targetPort m of None \<Rightarrow> 80 | Some p \<Rightarrow> p) (ar_method m) (ar_body m) now a
                      else if code = 200
                      then startPingKeepalive deviceId authToken ip
                             (case targetPort m of None \<Rightarrow> 80 | Some p \<Rightarrow> p) now a
                      else a)))"

definition apiRequestDone :: "api_request \<Rightarrow> http_outcome \<Rightarrow> int \<Rightarrow> agent \<Rightarrow> agent" where
  "apiRequestDone m res now a =
     (let a1 = autoRequestTrigger m (or_else (targetIp m) []) res now a
      in case wsSend (ApiResponseOut (ar_requestId m) res) a1 of
           None \<Rightarrow> a1
         | Some a2 \<Rightarrow> a2)"

text \<open>\<open>handleMessage\<close> up to its first \<open>await\<close>, at clock \<open>now\<close>.\<close>

fun handleMessage :: "agent_msg \<Rightarrow> int \<Rightarrow> agent \<Rightarrow> agent" where
  "handleMessage (DiscoverMsg rid) now a =
     (case wsSend (DiscoverResponseOut rid (getDiscoveredDevices a)) a of
        None \<Rightarrow> a
      | Some a1 \<Rightarrow> a1)"
| "handleMessage (ApiRequestMsg m) now a =
     (if falsy (targetIp m)
      then (case wsSend (ApiResponseOut (ar_requestId m) (HttpError ''Missing targetIp'')) a of
              None \<Rightarrow> a
            | Some a1 \<Rightarrow> a1)
      else issueCall (ApiRequestCont m) a)"
| "handleMessage PingMsg now a =
     (case wsSend PongOut a of
        None \<Rightarrow> a
      | Some a1 \<Rightarrow> resetWatchdog now a1)"
| "handleMessage OtherMsg now a = a"
| "handleMessage MalformedMsg now a = a"

subsection \<open>The agent as a transition system\<close>

text \<open>An armed timer fires at clock \<open>now\<close>; a one-shot timer is spent.\<close>

definition timerFired :: "nat \<Rightarrow> int \<Rightarrow> agent \<Rightarrow> agent" where
  "timerFired tid now a =
     (case atimers a tid of
        None \<Rightarrow> a
      | Some tm \<Rightarrow>
          let a1 = (if repeats tm then a else clearTimer tid a)
          in (case callback tm of
                RemoveDevice deviceId \<Rightarrow> removeDevice deviceId a1
              | WatchdogCheck \<Rightarrow> watchdogCheck now a1
              | Reconnect \<Rightarrow> connect a1
              | ReconnectAfterClose \<Rightarrow> connect (a1\<lparr> reconnectTimer := None \<rparr>)
              | AuthRetryTick st \<Rightarrow> issueCall (AuthRetryCont st) a1
              | PingKeepaliveTick st \<Rightarrow> issueCall (PingKeepaliveCont st) a1
              | AutoRequestExpiry stateKey \<Rightarrow> cleanupAutoRequests stateKey a1))"

text \<open>A device call in flight completes at clock \<open>now\<close>.\<close>

definition callDone :: "nat \<Rightarrow> http_outcome \<Rightarrow> int \<Rightarrow> agent \<Rightarrow> agent" where
  "callDone cid res now a =
     (case inflight a cid of
        None \<Rightarrow> a
      | Some k \<Rightarrow>
          let a1 = a\<lparr> inflight := (inflight a)(cid := None) \<rparr>
          in (case k of
                ApiRequestCont m \<Rightarrow> apiRequestDone m res now a1
              | AuthRetryCont st \<Rightarrow> authRetryDone st res now a1
              | PingKeepaliveCont st \<Rightarrow> a1))"

text \<open>
  The events the event loop delivers to the agent: \<open>start()\<close> at program start (it
  calls \<open>connect()\<close> and starts the service browser, the source of the \<open>up\<close> and
  \<open>down\<close> events), a service coming up or going down, a message from the relay, the
  firing of a timer, the completion of a device call, and the \<open>open\<close> and \<open>close\<close>
  events of a socket. A socket emits \<open>open\<close> once, while it is connecting, and
  \<open>close\<close> once; a closing handshake that the relay starts is taken together with the
  \<open>close\<close> event that ends it. \<open>handleMessage\<close> does not look at the socket a message
  arrived on, so a \<open>Message\<close> event does not name one.
\<close>

datatype agent_event =
    Start
  | Up service
  | Down service
  | Message agent_msg int
  | TimerFired nat int
  | CallDone nat http_outcome int
  | WsOpen sock int
  | WsClose sock

fun deliver :: "agent \<Rightarrow> agent_event \<Rightarrow> agent" where
  "deliver a Start = connect a"
| "deliver a (Up svc) = onUp svc a"
| "deliver a (Down svc) = onDown svc a"
| "deliver a (Message m now) = handleMessage m now a"
| "deliver a (TimerFired tid now) = timerFired tid now a"
| "deliver a (CallDone cid res now) = callDone cid res now a"
| "deliver a (WsOpen s now) = (if sockets a s = Some CONNECTING then onWsOpen s now a else a)"
| "deliver a (WsClose s) =
     (if sockets a s = None \<or> sockets a s = Some CLOSED then a else onWsClose s a)"

text \<open>Once the process has ended, nothing is delivered.\<close>

definition agent_step :: "agent \<Rightarrow> agent_event \<Rightarrow> agent" where
  "agent_step a ev = (if exited a then a else deliver a ev)"

definition agent_run :: "agent \<Rightarrow> agent_event list \<Rightarrow> agent" where
  "agent_run a evs = foldl agent_step a evs"

section \<open>Specification vocabulary\<close>

subsection \<open>Pending requests of the relay\<close>

text \<open>
  Caller \<open>n\<close> (the \<open>n\<close>-th call of \<open>sendToProxy\<close>) is pending when some handler
  table holds its entry, armed when some timer will reject it, and \<open>settle_count\<close> is
  the number of \<open>resolve\<close>/\<open>reject\<close> calls made on its promise so far.
\<close>

definition pending :: "relay \<Rightarrow> nat \<Rightarrow> bool" where
  "pending r n \<longleftrightarrow> (\<exists>t h. tables r t (''req-'' @ dec n) = Some h \<and> h_caller h = n)"

definition armed :: "relay \<Rightarrow> nat \<Rightarrow> bool" where
  "armed r n \<longleftrightarrow> (\<exists>tid cl. timers r tid = Some cl \<and> tc_caller cl = n)"

definition settle_count :: "relay \<Rightarrow> nat \<Rightarrow> nat" where
  "settle_count r n = length (filter (\<lambda>p. fst p = n) (settled r))"

text \<open>
  The invariant of the relay: every table entry is stored where its closure points,
  under the id of its caller, with its timer armed and its promise unsettled; no id is
  in two tables; every armed timer has its entry; promises are settled at most once;
  every registered connection has an allocated table; every issued call is pending or
  settled.
\<close>

definition inv_tables :: "relay \<Rightarrow> bool" where
  "inv_tables r \<longleftrightarrow>
     (\<forall>t k h. tables r t k = Some h \<longrightarrow>
        h_table h = t \<and> h_requestId h = k \<and> k = ''req-'' @ dec (h_caller h) \<and>
        1 \<le> h_caller h \<and> h_caller h \<le> requestIdCounter r \<and> t < nextRef r \<and>
        (\<exists>d. timers r (h_timer h) =
           Some \<lparr> tc_table = t, tc_requestId = k, tc_caller = h_caller h, tc_delay = d \<rparr>) \<and>
        h_caller h \<notin> fst ` set (settled r))"

definition inv_unique :: "relay \<Rightarrow> bool" where
  "inv_unique r \<longleftrightarrow>
     (\<forall>t t' k h h'. tables r t k = Some h \<longrightarrow> tables r t' k = Some h' \<longrightarrow> t = t')"

definition inv_timers :: "relay \<Rightarrow> bool" where
  "inv_timers r \<longleftrightarrow>
     (\<forall>tid cl. timers r tid = Some cl \<longrightarrow>
        tid < nextTimer r \<and>
        tables r (tc_table cl) (tc_requestId cl) =
          Some \<lparr> h_table = tc_table cl, h_requestId = tc_requestId cl, h_timer = tid,
                 h_caller = tc_caller cl \<rparr>)"

definition inv_settled :: "relay \<Rightarrow> bool" where
  "inv_settled r \<longleftrightarrow>
     distinct (map fst (settled r)) \<and>
     (\<forall>n \<in> fst ` set (settled r). 1 \<le> n \<and> n \<le> requestIdCounter r)"

definition inv_conns :: "relay \<Rightarrow> bool" where
  "inv_conns r \<longleftrightarrow> (\<forall>k c. connections r k = Some c \<longrightarrow> requestHandlers c < nextRef r)"

definition inv_issued :: "relay \<Rightarrow> bool" where
  "inv_issued r \<longleftrightarrow>
     (\<forall>n. 1 \<le> n \<and> n \<le> requestIdCounter r \<longrightarrow> n \<in> fst ` set (settled r) \<or> pending r n)"

definition relay_inv :: "relay \<Rightarrow> bool" where
  "relay_inv r \<longleftrightarrow>
     inv_tables r \<and> inv_unique r \<and> inv_timers r \<and> inv_settled r \<and> inv_conns r \<and> inv_issued r"

text \<open>Every registered connection has a non-empty secret.\<close>

definition inv_secrets :: "relay \<Rightarrow> bool" where
  "inv_secrets r \<longleftrightarrow> (\<forall>k c. connections r k = Some c \<longrightarrow> secret c \<noteq> [])"

text \<open>
  What the stored handler and the timeout callback have in common: one entry leaves
  its table, one timer leaves the armed timers, one promise is settled.
\<close>

definition settle :: "ref \<Rightarrow> string \<Rightarrow> nat \<Rightarrow> nat \<Rightarrow> settlement \<Rightarrow> relay \<Rightarrow> relay" where
  "settle t k tid n s r =
     r\<lparr> timers := (timers r)(tid := None),
        tables := (tables r)(t := (tables r t)(k := None)),
        settled := settled r @ [(n, s)] \<rparr>"

subsection \<open>Timer sets of the auto-request states\<close>

definition state_key :: "auto_state \<Rightarrow> string" where
  "state_key st = getAutoRequestStateKey (as_deviceId st) (as_authToken st)"

text \<open>The state key an armed timer works for, if it is an auto-request timer.\<close>

fun owner :: "callback \<Rightarrow> string option" where
  "owner (AuthRetryTick st) = Some (state_key st)"
| "owner (PingKeepaliveTick st) = Some (state_key st)"
| "owner (AutoRequestExpiry k) = Some k"
| "owner (RemoveDevice d) = None"
| "owner WatchdogCheck = None"
| "owner Reconnect = None"
| "owner ReconnectAfterClose = None"

text \<open>Timer \<open>tid\<close> with this callback is the interval or the expiry timer of state \<open>st\<close>.\<close>

fun belongs :: "callback \<Rightarrow> nat \<Rightarrow> auto_state \<Rightarrow> bool" where
  "belongs (AuthRetryTick st') tid st =
     (st' = st \<and> intervalTimer st = Some tid \<and> as_state st = AuthRetry)"
| "belongs (PingKeepaliveTick st') tid st =
     (st' = st \<and> intervalTimer st = Some tid \<and> as_state st = PingKeepalive)"
| "belongs (AutoRequestExpiry k) tid st = (timeoutTimer st = Some tid)"
| "belongs (RemoveDevice d) tid st = False"
| "belongs WatchdogCheck tid st = False"
| "belongs Reconnect tid st = False"
| "belongs ReconnectAfterClose tid st = False"

definition auto_timers :: "agent \<Rightarrow> string \<Rightarrow> nat set" where
  "auto_timers a key = {tid. \<exists>tm. atimers a tid = Some tm \<and> owner (callback tm) = Some key}"

definition interval_timers :: "agent \<Rightarrow> string \<Rightarrow> nat set" where
  "interval_timers a key =
     {tid. \<exists>tm st. atimers a tid = Some tm \<and> state_key st = key \<and>
                   (callback tm = AuthRetryTick st \<or> callback tm = PingKeepaliveTick st)}"

definition expiry_timers :: "agent \<Rightarrow> string \<Rightarrow> nat set" where
  "expiry_timers a key = {tid. \<exists>tm. atimers a tid = Some tm \<and> callback tm = AutoRequestExpiry key}"

definition state_timers :: "auto_state \<Rightarrow> nat set" where
  "state_timers st = set_option (intervalTimer st) \<union> set_option (timeoutTimer st)"

text \<open>
  The invariant of the auto-request map: a stored state sits under its own key and
  holds two distinct allocated timer handles; every armed auto-request timer is the
  interval or the expiry timer of the state stored under its key.
\<close>

definition inv_states :: "agent \<Rightarrow> bool" where
  "inv_states a \<longleftrightarrow>
     (\<forall>key st. autoRequestStates a key = Some st \<longrightarrow>
        state_key st = key \<and>
        (\<exists>i t. intervalTimer st = Some i \<and> timeoutTimer st = Some t \<and>
               i < anextTimer a \<and> t < anextTimer a \<and> i \<noteq> t))"

definition inv_owned :: "agent \<Rightarrow> bool" where
  "inv_owned a \<longleftrightarrow>
     (\<forall>tid tm key. atimers a tid = Some tm \<longrightarrow> owner (callback tm) = Some key \<longrightarrow>
        (\<exists>st. autoRequestStates a key = Some st \<and> belongs (callback tm) tid st))"

definition auto_inv :: "agent \<Rightarrow> bool" where
  "auto_inv a \<longleftrightarrow> inv_states a \<and> inv_owned a"

text \<open>The second half of \<open>startAuthRetry\<close> and \<open>startPingKeepalive\<close>, after the cleanup.\<close>

definition install :: "string \<Rightarrow> (auto_state \<Rightarrow> callback) \<Rightarrow> auto_state \<Rightarrow> agent \<Rightarrow> agent" where
  "install key tick st a =
     (let a2 = setTimer (tick st) AUTO_REQUEST_INTERVAL_MS True a;
          a3 = setTimer (AutoRequestExpiry key) AUTO_REQUEST_DURATION_MS False a2
      in a3\<lparr> autoRequestStates := (autoRequestStates a3)(key \<mapsto> st) \<rparr>)"

subsection \<open>The watchdog\<close>

text \<open>
  The agent is connected on the open socket \<open>s\<close>, its watchdog interval \<open>w\<close> is armed
  with a period of 10 seconds, and the elapsed-time reference is \<open>lp\<close>.
\<close>

definition watching :: "agent \<Rightarrow> sock \<Rightarrow> nat \<Rightarrow> int \<Rightarrow> bool" where
  "watching a s w lp \<longleftrightarrow>
     agent_ws a = Some s \<and> sockets a s = Some OPEN \<and> watchdogTimer a = Some w \<and>
     lastPingTime a = Some lp \<and>
     atimers a w = Some \<lparr> callback = WatchdogCheck, delay_ms = 10000, repeats = True \<rparr>"







text \<open>
  The timer handles the agent keeps outside \<open>watchdogTimer\<close>: in its maps, in
  \<open>reconnectTimer\<close> and in the state objects of the auth-retry calls in flight.
\<close>

definition stored_handles :: "agent \<Rightarrow> nat set" where
  "stored_handles a =
     {h. (\<exists>d. deviceRemovalTimers a d = Some h) \<or> reconnectTimer a = Some h \<or>
         (\<exists>k st. autoRequestStates a k = Some st \<and> h \<in> state_timers st) \<or>
         (\<exists>c st. inflight a c = Some (AuthRetryCont st) \<and> h \<in> state_timers st)}"

text \<open>
  The invariant of the watchdog: timer handles are allocated below \<open>anextTimer\<close>; the
  only armed check is the one in \<open>watchdogTimer\<close>; while that variable is set the check
  is armed with a period of 10 seconds, a reference is set, and the agent is connected
  on an open socket; the socket in \<open>ws\<close> is connecting or open; a connected agent
  has its watchdog running; no handle kept elsewhere is the watchdog's.
\<close>

definition wd_inv :: "agent \<Rightarrow> bool" where
  "wd_inv a \<longleftrightarrow>
     (\<forall>tid tm. atimers a tid = Some tm \<longrightarrow> tid < anextTimer a) \<and>
     (\<forall>tid tm. atimers a tid = Some tm \<longrightarrow> callback tm = WatchdogCheck \<longrightarrow>
        watchdogTimer a = Some tid) \<and>
     (\<forall>w. watchdogTimer a = Some w \<longrightarrow>
        atimers a w = Some \<lparr> callback = WatchdogCheck, delay_ms = 10000, repeats = True \<rparr> \<and>
        lastPingTime a \<noteq> None \<and> isConnected a \<and> \<not> exited a \<and>
        (\<exists>s. agent_ws a = Some s \<and> sockets a s = Some OPEN)) \<and>
     (\<forall>s. agent_ws a = Some s \<longrightarrow> sockets a s = Some CONNECTING \<or> sockets a s = Some OPEN) \<and>
     (isConnected a \<longrightarrow> exited a \<or> watchdogTimer a \<noteq> None) \<and>
     (\<forall>h \<in> stored_handles a. h < anextTimer a \<and> watchdogTimer a \<noteq> Some h)"

definition agent_inv :: "agent \<Rightarrow> bool" where
  "agent_inv a \<longleftrightarrow> auto_inv a \<and> wd_inv a"


subsection \<open>Concrete scenarios\<close>

definition hn0 :: "string \<Rightarrow> string option" where
  "hn0 s = (if s = ''https://a.church.tools/'' then Some ''a.church.tools'' else None)"

definition reg0 :: register_msg where
  "reg0 = \<lparr> reg_churchToolsUrl = Some ''a.church.tools'', reg_secret = Some ''s1'',
            reg_proxyVersion = Some ''2.0.0'', reg_uuid = Some ''u1'', reg_location = None,
            reg_public = Some False \<rparr>"

definition conn0 :: conn where
  "conn0 = \<lparr> churchToolsUrl = ''a.church.tools'', secret = ''s1'', uuid = ''u1'', location = [],
            public = False, ws = 1, requestHandlers = 0, registeredAt = 0,
            proxyVersion = ''2.0.0'' \<rparr>"

definition req0 :: http_request where
  "req0 = \<lparr> hdr_referer = Some ''https://a.church.tools/'', hdr_referrer = None,
            hdr_x_auth = Some ''s1'', hdr_x_id = Some ''u1'', hdr_onsongip = None,
            hdr_onsongport = None, req_method = ''GET'', req_url = ''/discover'',
            req_body = [] \<rparr>"

definition resp1 :: response where
  "resp1 = \<lparr> resp_requestId = ''req-1'', resp_success = True, resp_statusCode = None,
             resp_headers = None, resp_data = [], resp_devices = ''[]'', resp_error = [] \<rparr>"

definition resp_failed :: response where
  "resp_failed = \<lparr> resp_requestId = ''req-1'', resp_success = False, resp_statusCode = None,
             resp_headers = None, resp_data = [], resp_devices = [],
             resp_error = ''connect ECONNREFUSED'' \<rparr>"

text \<open>One agent registered, one discover call relayed and not yet answered.\<close>

definition relay_sent :: relay where
  "relay_sent = relay_run hn0 [SocketMessage 1 (Register reg0) 0, HttpRequest Discover req0]"

text \<open>
  The same, after the agent has registered again on a new socket while the call was in
  flight.
\<close>

definition relay_reregistered :: relay where
  "relay_reregistered = relay_run hn0
     [SocketMessage 1 (Register reg0) 0, HttpRequest Discover req0,
      SocketMessage 2 (Register reg0) 3]"

text \<open>A public agent with secret \<open>s1\<close>, and a request that presents another secret.\<close>

definition relay_public :: relay where
  "relay_public = relay_run hn0 [SocketMessage 1 (Register (reg0\<lparr> reg_public := Some True \<rparr>)) 0]"

definition req_wrong :: http_request where
  "req_wrong = req0\<lparr> hdr_x_auth := Some ''guess'' \<rparr>"

definition svc0 :: service where
  "svc0 = \<lparr> svc_name = ''iPad'', svc_type = ''http'', svc_host = ''ipad.local'',
            svc_addresses = Some [''192.168.1.5''], svc_port = 80,
            svc_txt = Some [(''role'', ''server''), (''deviceid'', ''d1'')] \<rparr>"

definition svc0b :: service where
  "svc0b = svc0\<lparr> svc_name := ''iPad (2)'', svc_addresses := Some [''fe80::1'', ''192.168.1.9''] \<rparr>"

definition svc6 :: service where
  "svc6 = \<lparr> svc_name = ''iPad'', svc_type = ''http'', svc_host = ''ipad.local'',
            svc_addresses = Some [''fe80::1''], svc_port = 80,
            svc_txt = Some [(''role'', ''server''), (''deviceid'', ''d1'')] \<rparr>"

definition ar0 :: api_request where
  "ar0 = \<lparr> ar_requestId = Some ''req-1'', targetIp = Some ''192.168.1.5'', targetPort = None,
           ar_method = ''POST'', ar_path = ''/api/tok/auth'', ar_body = None \<rparr>"

text \<open>
  An agent that has started and whose first socket (number 0) has opened at clock 0:
  its watchdog is timer 0.
\<close>

definition agent_connected :: agent where
  "agent_connected = agent_run agent_init [Start, WsOpen 0 0]"

text \<open>An agent that knows device \<open>d1\<close> and whose relayed auth call to it has failed.\<close>

definition agent_retrying :: agent where
  "agent_retrying = agent_run agent_init
     [Up svc0, Message (ApiRequestMsg ar0) 0, CallDone 0 (HttpError ''ECONNREFUSED'') 10]"

definition state0 :: auto_state where
  "state0 = \<lparr> as_deviceId = ''d1'', as_authToken = ''tok'', as_deviceIp = ''192.168.1.5'',
       as_devicePort = 80, as_method = Some ''POST'', as_body = None, as_state = AuthRetry,
       intervalTimer = Some 0, timeoutTimer = Some 1, startTime = 10 \<rparr>"

section \<open>Request ids\<close>

text \<open>
  The decimal rendering is injective, so two calls of \<open>sendToProxy\<close> never share a
  request id.
\<close>

lemma digit_char_inj: "a < 10 \<Longrightarrow> b < 10 \<Longrightarrow> digit_char a = digit_char b \<Longrightarrow> a = b"
proof -
  assume a: "a < 10" and b: "b < 10" and e: "digit_char a = digit_char b"
  from e have "of_char (char_of (48 + a) :: char) = (of_char (char_of (48 + b) :: char) :: nat)"
    by (simp add: digit_char_def)
  with a b show "a = b" by (simp add: of_char_of)
qed

lemma dec_nonempty: "dec n \<noteq> []"
  by (subst dec.simps) simp

lemma dec_inj: "dec m = dec n \<Longrightarrow> m = n"
proof (induction m arbitrary: n rule: dec.induct)
  case (1 m)
  show ?case
  proof (cases "m < 10")
    case True
    note m = this
    show ?thesis
    proof (cases "n < 10")
      case True
      with m "1.prems" show ?thesis
        by (simp add: dec.simps [of m] dec.simps [of n] digit_char_inj)
    next
      case False
      with m "1.prems" dec_nonempty [of "n div 10"] show ?thesis
        by (simp add: dec.simps [of m] dec.simps [of n])
    qed
  next
    case False
    note m = this
    show ?thesis
    proof (cases "n < 10")
      case True
      with m "1.prems" dec_nonempty [of "m div 10"] show ?thesis
        by (simp add: dec.simps [of m] dec.simps [of n])
    next
      case False
      with m "1.prems" have e: "dec (m div 10) = dec (n div 10)"
        and d: "digit_char (m mod 10) = digit_char (n mod 10)"
        by (simp_all add: dec.simps [of m] dec.simps [of n])
      from "1.IH" [OF m e] have "m div 10 = n div 10" .
      moreover from d have "m mod 10 = n mod 10"
        by (rule digit_char_inj [rotated 2]) simp_all
      ultimately show ?thesis
        by (metis div_mult_mod_eq)
    qed
  qed
qed

lemma dec_Suc_0 [simp]: "dec (Suc 0) = ''1''"
  by code_simp

section \<open>The relay keeps its invariant\<close>

lemma relay_inv_init: "relay_inv relay_init"
  by (simp add: relay_inv_def inv_tables_def inv_timers_def inv_settled_def inv_conns_def
      inv_issued_def inv_unique_def relay_init_def)

lemma inv_tablesD:
  assumes "inv_tables r" "tables r t k = Some h"
  shows "h_table h = t" "h_requestId h = k" "k = ''req-'' @ dec (h_caller h)"
    "1 \<le> h_caller h" "h_caller h \<le> requestIdCounter r" "t < nextRef r"
    "\<exists>d. timers r (h_timer h) =
       Some \<lparr> tc_table = t, tc_requestId = k, tc_caller = h_caller h, tc_delay = d \<rparr>"
    "h_caller h \<notin> fst ` set (settled r)"
  using assms unfolding inv_tables_def by blast+

lemma inv_timersD:
  assumes "inv_timers r" "timers r tid = Some cl"
  shows "tid < nextTimer r"
    "tables r (tc_table cl) (tc_requestId cl) =
       Some \<lparr> h_table = tc_table cl, h_requestId = tc_requestId cl, h_timer = tid,
              h_caller = tc_caller cl \<rparr>"
  using assms unfolding inv_timers_def by blast+

lemma inv_uniqueD:
  "inv_unique r \<Longrightarrow> tables r t k = Some h \<Longrightarrow> tables r t' k = Some h' \<Longrightarrow> t = t'"
  unfolding inv_unique_def by blast

lemma no_entry_above_counter:
  assumes "inv_tables r" "requestIdCounter r < n"
  shows "tables r t (''req-'' @ dec n) = None"
proof (cases "tables r t (''req-'' @ dec n)")
  case None
  then show ?thesis .
next
  case (Some h)
  from inv_tablesD(3,5) [OF assms(1) Some] assms(2) show ?thesis
    by (auto dest: dec_inj)
qed

lemma send_fields:
  "requestIdCounter (sendToProxy c typ dat tmo r) = requestIdCounter r + 1"
  "connections (sendToProxy c typ dat tmo r) = connections r"
  "nextRef (sendToProxy c typ dat tmo r) = nextRef r"
  "nextTimer (sendToProxy c typ dat tmo r) = nextTimer r + 1"
  "settled (sendToProxy c typ dat tmo r) = settled r"
  "registeredKey (sendToProxy c typ dat tmo r) = registeredKey r"
  "timers (sendToProxy c typ dat tmo r) x =
     (if x = nextTimer r
      then Some \<lparr> tc_table = requestHandlers c,
                  tc_requestId = ''req-'' @ dec (requestIdCounter r + 1),
                  tc_caller = requestIdCounter r + 1, tc_delay = tmo \<rparr>
      else timers r x)"
  "tables (sendToProxy c typ dat tmo r) t k =
     (if t = requestHandlers c \<and> k = ''req-'' @ dec (requestIdCounter r + 1)
      then Some \<lparr> h_table = requestHandlers c,
                  h_requestId = ''req-'' @ dec (requestIdCounter r + 1),
                  h_timer = nextTimer r, h_caller = requestIdCounter r + 1 \<rparr>
      else tables r t k)"
  by (simp_all add: sendToProxy_def Let_def)

lemma send_inv:
  assumes inv: "relay_inv r" and c: "requestHandlers c < nextRef r"
  shows "relay_inv (sendToProxy c typ dat tmo r)"
proof -
  let ?r = "sendToProxy c typ dat tmo r"
  let ?n = "requestIdCounter r + 1"
  from inv have it: "inv_tables r" and iu: "inv_unique r" and im: "inv_timers r"
    and ise: "inv_settled r" and ic: "inv_conns r" and ii: "inv_issued r"
    by (simp_all add: relay_inv_def)
  have fresh: "tables r t (''req-'' @ dec ?n) = None" for t
    by (rule no_entry_above_counter [OF it]) simp
  have new_unsettled: "?n \<notin> fst ` set (settled r)"
    using ise unfolding inv_settled_def by fastforce
  have old: "tables ?r t k = Some h \<Longrightarrow> k \<noteq> ''req-'' @ dec ?n \<Longrightarrow> tables r t k = Some h" for t k h
    by (simp add: send_fields split: if_splits)
  have keep: "tables r t k = Some h \<Longrightarrow> tables ?r t k = Some h" for t k h
    using fresh [of t] by (auto simp: send_fields)
  have t1: "inv_tables ?r"
    unfolding inv_tables_def
  proof (intro allI impI)
    fix t k h
    assume e: "tables ?r t k = Some h"
    show "h_table h = t \<and> h_requestId h = k \<and> k = ''req-'' @ dec (h_caller h) \<and>
        1 \<le> h_caller h \<and> h_caller h \<le> requestIdCounter ?r \<and> t < nextRef ?r \<and>
        (\<exists>d. timers ?r (h_timer h) =
           Some \<lparr> tc_table = t, tc_requestId = k, tc_caller = h_caller h, tc_delay = d \<rparr>) \<and>
        h_caller h \<notin> fst ` set (settled ?r)"
    proof (cases "k = ''req-'' @ dec ?n")
      case True
      with e fresh [of t] have "t = requestHandlers c"
        and "h = \<lparr> h_table = requestHandlers c, h_requestId = ''req-'' @ dec ?n,
                   h_timer = nextTimer r, h_caller = ?n \<rparr>"
        by (auto simp: send_fields split: if_splits)
      with True c new_unsettled show ?thesis
        by (simp add: send_fields)
    next
      case False
      from old [OF e False] have o: "tables r t k = Some h" .
      from inv_tablesD(7) [OF it o] obtain d where
        tm: "timers r (h_timer h) =
          Some \<lparr> tc_table = t, tc_requestId = k, tc_caller = h_caller h, tc_delay = d \<rparr>" ..
      from inv_timersD(1) [OF im tm] have "h_timer h \<noteq> nextTimer r" by simp
      with tm inv_tablesD(1-6,8) [OF it o] show ?thesis
        by (simp add: send_fields)
    qed
  qed
  have t2: "inv_unique ?r"
    unfolding inv_unique_def
  proof (intro allI impI)
    fix t t' k h h'
    assume a: "tables ?r t k = Some h" and b: "tables ?r t' k = Some h'"
    show "t = t'"
    proof (cases "k = ''req-'' @ dec ?n")
      case True
      with a b fresh [of t] fresh [of t'] show ?thesis
        by (auto simp: send_fields split: if_splits)
    next
      case False
      from inv_uniqueD [OF iu old [OF a False] old [OF b False]] show ?thesis .
    qed
  qed
  have t3: "inv_timers ?r"
    unfolding inv_timers_def
  proof (intro allI impI)
    fix tid cl
    assume a: "timers ?r tid = Some cl"
    show "tid < nextTimer ?r \<and>
        tables ?r (tc_table cl) (tc_requestId cl) =
          Some \<lparr> h_table = tc_table cl, h_requestId = tc_requestId cl, h_timer = tid,
                 h_caller = tc_caller cl \<rparr>"
    proof (cases "tid = nextTimer r")
      case True
      with a show ?thesis by (auto simp: send_fields)
    next
      case False
      with a have o: "timers r tid = Some cl" by (simp add: send_fields)
      from inv_timersD [OF im o] keep show ?thesis
        by (simp add: send_fields(4))
    qed
  qed
  have t4: "inv_settled ?r"
    using ise unfolding inv_settled_def by (fastforce simp: send_fields)
  have t5: "inv_conns ?r"
    using ic unfolding inv_conns_def by (simp add: send_fields)
  have t6: "inv_issued ?r"
    unfolding inv_issued_def
  proof (intro allI impI)
    fix n
    assume n: "1 \<le> n \<and> n \<le> requestIdCounter ?r"
    show "n \<in> fst ` set (settled ?r) \<or> pending ?r n"
    proof (cases "n = ?n")
      case True
      then have "pending ?r n"
        unfolding pending_def
        by (intro exI [of _ "requestHandlers c"]) (simp add: send_fields)
      then show ?thesis ..
    next
      case False
      with n have "1 \<le> n \<and> n \<le> requestIdCounter r" by (simp add: send_fields)
      with ii have "n \<in> fst ` set (settled r) \<or> pending r n"
        unfolding inv_issued_def by blast
      then show ?thesis
      proof
        assume "n \<in> fst ` set (settled r)"
        then show ?thesis by (simp add: send_fields)
      next
        assume "pending r n"
        then obtain t h where "tables r t (''req-'' @ dec n) = Some h" "h_caller h = n"
          unfolding pending_def by blast
        with keep have "pending ?r n" unfolding pending_def by blast
        then show ?thesis ..
      qed
    qed
  qed
  from t1 t2 t3 t4 t5 t6 show ?thesis by (simp add: relay_inv_def)
qed

lemma settle_fields:
  "requestIdCounter (settle t k tid n s r) = requestIdCounter r"
  "connections (settle t k tid n s r) = connections r"
  "nextRef (settle t k tid n s r) = nextRef r"
  "nextTimer (settle t k tid n s r) = nextTimer r"
  "settled (settle t k tid n s r) = settled r @ [(n, s)]"
  "registeredKey (settle t k tid n s r) = registeredKey r"
  "timers (settle t k tid n s r) x = (if x = tid then None else timers r x)"
  "tables (settle t k tid n s r) t' k' = (if t' = t \<and> k' = k then None else tables r t' k')"
  by (simp_all add: settle_def)

lemma settle_inv:
  assumes inv: "relay_inv r"
    and e: "tables r t k = Some \<lparr> h_table = t, h_requestId = k, h_timer = tid, h_caller = n \<rparr>"
  shows "relay_inv (settle t k tid n s r)"
proof -
  let ?r = "settle t k tid n s r"
  let ?h = "\<lparr> h_table = t, h_requestId = k, h_timer = tid, h_caller = n \<rparr>"
  from inv have it: "inv_tables r" and iu: "inv_unique r" and im: "inv_timers r"
    and ise: "inv_settled r" and ic: "inv_conns r" and ii: "inv_issued r"
    by (simp_all add: relay_inv_def)
  from inv_tablesD [OF it e] have k: "k = ''req-'' @ dec n" and n: "1 \<le> n" "n \<le> requestIdCounter r"
    and ns: "n \<notin> fst ` set (settled r)"
    by simp_all
  from inv_tablesD(7) [OF it e] obtain d where
    tm: "timers r tid = Some \<lparr> tc_table = t, tc_requestId = k, tc_caller = n, tc_delay = d \<rparr>"
    by auto
  have old: "tables ?r t' k' = Some h \<Longrightarrow> tables r t' k' = Some h \<and> (t', k') \<noteq> (t, k)" for t' k' h
    by (simp add: settle_fields split: if_splits)
  have other_caller: "h_caller h \<noteq> n"
    if o: "tables r t' k' = Some h" and ne: "(t', k') \<noteq> (t, k)" for t' k' h
  proof
    assume "h_caller h = n"
    with inv_tablesD(3) [OF it o] k have kk: "k' = k" by simp
    with o have "tables r t' k = Some h" by simp
    from inv_uniqueD [OF iu this e] kk ne show False by simp
  qed
  have t1: "inv_tables ?r"
    unfolding inv_tables_def
  proof (intro allI impI)
    fix t' k' h
    assume a: "tables ?r t' k' = Some h"
    from old [OF a] have o: "tables r t' k' = Some h" and ne: "(t', k') \<noteq> (t, k)" by simp_all
    from inv_tablesD(7) [OF it o] obtain d' where
      tm': "timers r (h_timer h) =
        Some \<lparr> tc_table = t', tc_requestId = k', tc_caller = h_caller h, tc_delay = d' \<rparr>" ..
    from tm tm' ne have "h_timer h \<noteq> tid" by auto
    with tm' inv_tablesD(1-6,8) [OF it o] other_caller [OF o ne]
    show "h_table h = t' \<and> h_requestId h = k' \<and> k' = ''req-'' @ dec (h_caller h) \<and>
        1 \<le> h_caller h \<and> h_caller h \<le> requestIdCounter ?r \<and> t' < nextRef ?r \<and>
        (\<exists>d. timers ?r (h_timer h) =
           Some \<lparr> tc_table = t', tc_requestId = k', tc_caller = h_caller h, tc_delay = d \<rparr>) \<and>
        h_caller h \<notin> fst ` set (settled ?r)"
      by (simp add: settle_fields)
  qed
  have t2: "inv_unique ?r"
    unfolding inv_unique_def
    using inv_uniqueD [OF iu] old by blast
  have t3: "inv_timers ?r"
    unfolding inv_timers_def
  proof (intro allI impI)
    fix x cl
    assume a: "timers ?r x = Some cl"
    then have x: "x \<noteq> tid" and o: "timers r x = Some cl"
      by (simp_all add: settle_fields split: if_splits)
    from inv_timersD [OF im o] have lt: "x < nextTimer r"
      and en: "tables r (tc_table cl) (tc_requestId cl) =
          Some \<lparr> h_table = tc_table cl, h_requestId = tc_requestId cl, h_timer = x,
                 h_caller = tc_caller cl \<rparr>"
      by simp_all
    from en e x have "\<not> (tc_table cl = t \<and> tc_requestId cl = k)" by auto
    with lt en show "x < nextTimer ?r \<and>
        tables ?r (tc_table cl) (tc_requestId cl) =
          Some \<lparr> h_table = tc_table cl, h_requestId = tc_requestId cl, h_timer = x,
                 h_caller = tc_caller cl \<rparr>"
      by (simp add: settle_fields)
  qed
  have t4: "inv_settled ?r"
    using ise ns n unfolding inv_settled_def by (auto simp: settle_fields)
  have t5: "inv_conns ?r"
    using ic unfolding inv_conns_def by (simp add: settle_fields)
  have t6: "inv_issued ?r"
    unfolding inv_issued_def
  proof (intro allI impI)
    fix m
    assume m: "1 \<le> m \<and> m \<le> requestIdCounter ?r"
    show "m \<in> fst ` set (settled ?r) \<or> pending ?r m"
    proof (cases "m = n")
      case True
      then show ?thesis by (simp add: settle_fields)
    next
      case False
      from m have "1 \<le> m \<and> m \<le> requestIdCounter r" by (simp add: settle_fields)
      with ii have "m \<in> fst ` set (settled r) \<or> pending r m"
        unfolding inv_issued_def by blast
      then show ?thesis
      proof
        assume "m \<in> fst ` set (settled r)"
        then show ?thesis by (simp add: settle_fields)
      next
        assume "pending r m"
        then obtain t' h where o: "tables r t' (''req-'' @ dec m) = Some h" and hm: "h_caller h = m"
          unfolding pending_def by blast
        from False k have "''req-'' @ dec m \<noteq> k" by (auto dest: dec_inj)
        with o have "tables ?r t' (''req-'' @ dec m) = Some h" by (simp add: settle_fields)
        with hm have "pending ?r m" unfolding pending_def by blast
        then show ?thesis ..
      qed
    qed
  qed
  from t1 t2 t3 t4 t5 t6 show ?thesis by (simp add: relay_inv_def)
qed

lemma timeoutFires_settle:
  assumes "inv_timers r" "timers r tid = Some cl"
  shows "timeoutFires tid r =
     settle (tc_table cl) (tc_requestId cl) tid (tc_caller cl) (Rejected ''Request timeout'') r"
  using assms by (simp add: timeoutFires_def settle_def)

lemma timeoutFires_inv:
  assumes inv: "relay_inv r"
  shows "relay_inv (timeoutFires tid r)"
proof (cases "timers r tid")
  case None
  with inv show ?thesis by (simp add: timeoutFires_def)
next
  case (Some cl)
  from inv have im: "inv_timers r" by (simp add: relay_inv_def)
  from inv_timersD(2) [OF im Some] settle_inv [OF inv] timeoutFires_settle [OF im Some]
  show ?thesis by simp
qed

lemma invokeHandler_settle:
  assumes "inv_tables r" "tables r t k = Some h"
  shows "invokeHandler h m r = settle t k (h_timer h) (h_caller h) (Resolved m) r"
  using inv_tablesD(1,2) [OF assms] by (simp add: invokeHandler_def settle_def)

lemma handler_eq:
  assumes "inv_tables r" "tables r t k = Some h"
  shows "h = \<lparr> h_table = t, h_requestId = k, h_timer = h_timer h, h_caller = h_caller h \<rparr>"
  using inv_tablesD(1,2) [OF assms] by (cases h) simp

lemma onResponse_inv:
  assumes inv: "relay_inv r"
  shows "relay_inv (onResponse s m r)"
proof -
  from inv have it: "inv_tables r" by (simp add: relay_inv_def)
  show ?thesis
  proof (cases "registeredKey r s")
    case None
    with inv show ?thesis by (simp add: onResponse_def)
  next
    case (Some key)
    note key = this
    show ?thesis
    proof (cases "connections r key")
      case None
      with key inv show ?thesis by (simp add: onResponse_def)
    next
      case (Some c)
      note c = this
      show ?thesis
      proof (cases "tables r (requestHandlers c) (resp_requestId m)")
        case None
        with key c inv show ?thesis by (simp add: onResponse_def)
      next
        case (Some h)
        from handler_eq [OF it Some] Some
        have "tables r (requestHandlers c) (resp_requestId m) =
          Some \<lparr> h_table = requestHandlers c, h_requestId = resp_requestId m,
                 h_timer = h_timer h, h_caller = h_caller h \<rparr>"
          by simp
        from settle_inv [OF inv this] invokeHandler_settle [OF it Some] key c Some
        show ?thesis by (simp add: onResponse_def)
      qed
    qed
  qed
qed

lemma onRegister_inv:
  assumes inv: "relay_inv r"
  shows "relay_inv (onRegister s m now r)"
proof (cases "falsy (reg_churchToolsUrl m) \<or> falsy (reg_secret m) \<or> falsy (reg_uuid m)")
  case True
  with inv show ?thesis
    by (simp add: onRegister_def relay_inv_def inv_tables_def inv_unique_def inv_timers_def
        inv_settled_def inv_conns_def inv_issued_def pending_def)
next
  case False
  let ?r = "onRegister s m now r"
  from inv have it: "inv_tables r" and iu: "inv_unique r" and im: "inv_timers r"
    and ise: "inv_settled r" and ic: "inv_conns r" and ii: "inv_issued r"
    by (simp_all add: relay_inv_def)
  have f: "requestIdCounter ?r = requestIdCounter r" "nextRef ?r = nextRef r + 1"
    "nextTimer ?r = nextTimer r" "settled ?r = settled r" "timers ?r = timers r"
    "\<And>t k. tables ?r t k = (if t = nextRef r then None else tables r t k)"
    using False by (simp_all add: onRegister_def Let_def)
  have keep: "tables r t k = Some h \<Longrightarrow> tables ?r t k = Some h" for t k h
    using inv_tablesD(6) [OF it, of t k h] by (simp add: f)
  have old: "tables ?r t k = Some h \<Longrightarrow> tables r t k = Some h" for t k h
    by (simp add: f split: if_splits)
  have t1: "inv_tables ?r"
    unfolding inv_tables_def
  proof (intro allI impI)
    fix t k h
    assume "tables ?r t k = Some h"
    from inv_tablesD [OF it old [OF this]]
    show "h_table h = t \<and> h_requestId h = k \<and> k = ''req-'' @ dec (h_caller h) \<and>
        1 \<le> h_caller h \<and> h_caller h \<le> requestIdCounter ?r \<and> t < nextRef ?r \<and>
        (\<exists>d. timers ?r (h_timer h) =
           Some \<lparr> tc_table = t, tc_requestId = k, tc_caller = h_caller h, tc_delay = d \<rparr>) \<and>
        h_caller h \<notin> fst ` set (settled ?r)"
      by (simp add: f(1-5))
  qed
  have t2: "inv_unique ?r"
    unfolding inv_unique_def using inv_uniqueD [OF iu] old by blast
  have t3: "inv_timers ?r"
    unfolding inv_timers_def
  proof (intro allI impI)
    fix tid cl
    assume "timers ?r tid = Some cl"
    then have "timers r tid = Some cl" by (simp add: f)
    from inv_timersD [OF im this] keep
    show "tid < nextTimer ?r \<and>
        tables ?r (tc_table cl) (tc_requestId cl) =
          Some \<lparr> h_table = tc_table cl, h_requestId = tc_requestId cl, h_timer = tid,
                 h_caller = tc_caller cl \<rparr>"
      by (simp add: f(1-5))
  qed
  have t4: "inv_settled ?r"
    using ise unfolding inv_settled_def by (simp add: f)
  have t5: "inv_conns ?r"
    using ic False unfolding inv_conns_def
    by (auto simp: onRegister_def Let_def less_Suc_eq)
  have t6: "inv_issued ?r"
    unfolding inv_issued_def
  proof (intro allI impI)
    fix n
    assume "1 \<le> n \<and> n \<le> requestIdCounter ?r"
    with ii have "n \<in> fst ` set (settled r) \<or> pending r n"
      unfolding inv_issued_def by (simp add: f)
    then show "n \<in> fst ` set (settled ?r) \<or> pending ?r n"
    proof
      assume "n \<in> fst ` set (settled r)"
      then show ?thesis by (simp add: f(4))
    next
      assume "pending r n"
      then obtain t h where "tables r t (''req-'' @ dec n) = Some h" "h_caller h = n"
        unfolding pending_def by blast
      with keep have "pending ?r n" unfolding pending_def by blast
      then show ?thesis ..
    qed
  qed
  from t1 t2 t3 t4 t5 t6 show ?thesis by (simp add: relay_inv_def)
qed

lemma onClose_inv:
  assumes inv: "relay_inv r"
  shows "relay_inv (onClose s r)"
  using inv
  by (auto simp: onClose_def relay_inv_def inv_tables_def inv_unique_def inv_timers_def
      inv_settled_def inv_conns_def inv_issued_def pending_def split: option.splits)

lemma auth_ok_conn:
  "findAndAuthenticateConnection r url x u = AuthOk c \<Longrightarrow> \<exists>k. connections r k = Some c"
  by (auto simp: findAndAuthenticateConnection_def split: option.splits if_splits)

lemma relay_call_inv:
  assumes inv: "relay_inv r"
    and p: "\<And>c typ dat. p = Relay c typ dat \<Longrightarrow> \<exists>k. connections r k = Some c"
  shows "relay_inv (relay_call p r)"
proof (cases p)
  case (Respond x)
  with inv show ?thesis by (simp add: relay_call_def)
next
  case (Relay c ty dat)
  from p [OF Relay] obtain k where "connections r k = Some c" ..
  with inv have "requestHandlers c < nextRef r"
    by (auto simp: relay_inv_def inv_conns_def)
  from send_inv [OF inv this] Relay show ?thesis by (simp add: relay_call_def)
qed

lemma discover_begin_conn:
  "discover_begin hn r req = Relay c typ dat \<Longrightarrow> \<exists>k. connections r k = Some c"
  by (auto simp: discover_begin_def split: if_splits auth_result.splits dest: auth_ok_conn)

lemma api_begin_conn:
  "api_begin hn r req = Relay c typ dat \<Longrightarrow> \<exists>k. connections r k = Some c"
  by (auto simp: api_begin_def split: if_splits auth_result.splits dest: auth_ok_conn)

lemma relay_step_inv:
  assumes inv: "relay_inv r"
  shows "relay_inv (relay_step hn r ev)"
proof (cases ev)
  case (SocketMessage s m now)
  with inv show ?thesis
    by (cases m) (simp_all add: onRegister_inv onResponse_inv)
next
  case (SocketClose s)
  with inv show ?thesis by (simp add: onClose_inv)
next
  case (TimerFires tid)
  with inv show ?thesis by (simp add: timeoutFires_inv)
next
  case (HttpRequest ep req)
  with inv show ?thesis
    by (cases ep) (simp_all add: relay_call_inv discover_begin_conn api_begin_conn)
qed

lemma relay_run_inv: "relay_inv (relay_run hn evs)"
  unfolding relay_run_def
  by (induction evs rule: rev_induct) (simp_all add: relay_inv_init relay_step_inv)

lemma sendToProxy_connections: "connections (sendToProxy c ty dat tmo r) = connections r"
  by (simp add: sendToProxy_def Let_def)

lemma relay_call_connections: "connections (relay_call p r) = connections r"
  by (cases p) (simp_all add: relay_call_def sendToProxy_connections)

lemma onResponse_connections: "connections (onResponse s m r) = connections r"
  by (simp add: onResponse_def invokeHandler_def split: option.splits)

lemma timeoutFires_connections: "connections (timeoutFires tid r) = connections r"
  by (simp add: timeoutFires_def split: option.splits)

lemma relay_step_secrets:
  assumes "inv_secrets r"
  shows "inv_secrets (relay_step hn r ev)"
proof (cases ev)
  case (SocketMessage s m now)
  show ?thesis
  proof (cases m)
    case (Register g)
    with SocketMessage assms show ?thesis
      by (auto simp: inv_secrets_def onRegister_def Let_def falsy_def or_else_def
          split: option.splits if_splits)
  qed (use SocketMessage assms in \<open>simp_all add: inv_secrets_def onResponse_connections\<close>)
next
  case (SocketClose s)
  with assms show ?thesis
    by (auto simp: inv_secrets_def onClose_def split: option.splits if_splits)
next
  case (TimerFires tid)
  with assms show ?thesis by (simp add: inv_secrets_def timeoutFires_connections)
next
  case (HttpRequest ep req)
  with assms show ?thesis
    by (cases ep) (simp_all add: inv_secrets_def relay_call_connections)
qed

lemma relay_run_secrets: "inv_secrets (relay_run hn evs)"
  unfolding relay_run_def
  by (induction evs rule: rev_induct) (simp_all add: relay_step_secrets, simp add: inv_secrets_def relay_init_def)

lemma count_distinct:
  "distinct (map fst xs) \<Longrightarrow>
     length (filter (\<lambda>p. fst p = n) xs) = (if n \<in> fst ` set xs then 1 else 0)"
  by (induction xs) (auto simp: image_iff)

lemma settle_count_inv:
  "inv_settled r \<Longrightarrow> settle_count r n = (if n \<in> fst ` set (settled r) then 1 else 0)"
  unfolding inv_settled_def settle_count_def by (simp add: count_distinct)

lemma pending_facts:
  assumes inv: "relay_inv r" and p: "pending r n"
  shows "armed r n" "n \<notin> fst ` set (settled r)" "1 \<le> n" "n \<le> requestIdCounter r"
proof -
  from inv have it: "inv_tables r" by (simp add: relay_inv_def)
  from p obtain t h where e: "tables r t (''req-'' @ dec n) = Some h" and h: "h_caller h = n"
    unfolding pending_def by blast
  from inv_tablesD(7) [OF it e] obtain d where
    "timers r (h_timer h) =
       Some \<lparr> tc_table = t, tc_requestId = ''req-'' @ dec n, tc_caller = h_caller h, tc_delay = d \<rparr>" ..
  with h show "armed r n"
    unfolding armed_def by (intro exI [of _ "h_timer h"]) simp
  from inv_tablesD(4,5,8) [OF it e] h
  show "n \<notin> fst ` set (settled r)" "1 \<le> n" "n \<le> requestIdCounter r" by simp_all
qed

lemma armed_pending:
  assumes inv: "relay_inv r" and a: "armed r n"
  shows "pending r n"
proof -
  from inv have it: "inv_tables r" and im: "inv_timers r" by (simp_all add: relay_inv_def)
  from a obtain tid cl where t: "timers r tid = Some cl" and c: "tc_caller cl = n"
    unfolding armed_def by blast
  from inv_timersD(2) [OF im t] have e: "tables r (tc_table cl) (tc_requestId cl) =
      Some \<lparr> h_table = tc_table cl, h_requestId = tc_requestId cl, h_timer = tid,
             h_caller = tc_caller cl \<rparr>" .
  from inv_tablesD(3) [OF it e] c have "tc_requestId cl = ''req-'' @ dec n" by simp
  with e c show ?thesis
    unfolding pending_def by (intro exI [of _ "tc_table cl"]) simp
qed

section \<open>Claims about the relay\<close>

subsection \<open>C1: a pending entry is destroyed exactly once\<close>

text \<open>
  Claim C1 fails when the Session has been replaced while the request is pending: the
  agent registers on socket 1, a discover call is relayed (\<open>req-1\<close>), the agent
  registers again on socket 2. The entry of \<open>req-1\<close> is still pending in the table of
  the replaced Session with its timer armed, but a response carrying \<open>req-1\<close>, on
  either socket, is looked up in the table of the Session now stored under the key and
  is dropped; the caller is rejected when the timer fires.
\<close>

theorem C1_response_for_replaced_session_is_dropped:
  "tables relay_reregistered 0 ''req-1'' =
     Some \<lparr> h_table = 0, h_requestId = ''req-1'', h_timer = 0, h_caller = 1 \<rparr> \<and>
   timers relay_reregistered 0 =
     Some \<lparr> tc_table = 0, tc_requestId = ''req-1'', tc_caller = 1, tc_delay = 30000 \<rparr> \<and>
   resp_requestId resp1 = ''req-1'' \<and>
   onMessage 1 (DiscoverResponse resp1) 5 relay_reregistered = relay_reregistered \<and>
   onMessage 2 (DiscoverResponse resp1) 5 relay_reregistered = relay_reregistered \<and>
   settled relay_reregistered = [] \<and>
   settled (timeoutFires 0 relay_reregistered) = [(1, Rejected ''Request timeout'')]"
  by (simp add: relay_reregistered_def relay_run_def relay_init_def onRegister_def reg0_def
      falsy_def or_else_def connectionKey_def Let_def req0_def resp1_def discover_begin_def
      getChurchToolsUrl_def referrer_of_def hn0_def findAndAuthenticateConnection_def
      relay_call_def sendToProxy_def onResponse_def timeoutFires_def)

text \<open>
  Claim C1, amended. In every state \<open>r\<close> the relay reaches, for every request sent
  through \<open>sendToProxy\<close>: a response on a socket, when the Session now stored under
  that socket's registered key holds an entry under the response's request id, finds
  that entry's timer armed, cancels it, removes the entry and resolves the caller of
  that id with the response; an armed timeout that fires finds its entry, removes it
  and rejects the caller with \<open>Request timeout\<close>; a response that finds no such entry,
  and a timer that is not armed, leave the state as it is; every issued call is either
  pending with its timer armed and not settled, or neither pending nor armed and
  settled exactly once; an id never issued is neither. Both response branches of the
  message handler are \<open>onResponse\<close>.
\<close>

theorem C1_pending_entry_destroyed_exactly_once:
  assumes r: "r = relay_run hostname_of evs"
  shows "(\<forall>s key c m h.
            registeredKey r s = Some key \<and> connections r key = Some c \<and>
            tables r (requestHandlers c) (resp_requestId m) = Some h \<longrightarrow>
              timers r (h_timer h) \<noteq> None \<and>
              resp_requestId m = ''req-'' @ dec (h_caller h) \<and>
              timers (onResponse s m r) (h_timer h) = None \<and>
              tables (onResponse s m r) (requestHandlers c) (resp_requestId m) = None \<and>
              settled (onResponse s m r) = settled r @ [(h_caller h, Resolved m)]) \<and>
         (\<forall>tid cl.
            timers r tid = Some cl \<longrightarrow>
              tables r (tc_table cl) (tc_requestId cl) \<noteq> None \<and>
              timers (timeoutFires tid r) tid = None \<and>
              tables (timeoutFires tid r) (tc_table cl) (tc_requestId cl) = None \<and>
              settled (timeoutFires tid r) =
                settled r @ [(tc_caller cl, Rejected ''Request timeout'')]) \<and>
         (\<forall>s m.
            (\<forall>key c. registeredKey r s = Some key \<and> connections r key = Some c \<longrightarrow>
               tables r (requestHandlers c) (resp_requestId m) = None) \<longrightarrow>
              onResponse s m r = r) \<and>
         (\<forall>tid. timers r tid = None \<longrightarrow> timeoutFires tid r = r) \<and>
         (\<forall>n. 1 \<le> n \<and> n \<le> requestIdCounter r \<longrightarrow>
            (pending r n \<and> armed r n \<and> settle_count r n = 0) \<or>
            (\<not> pending r n \<and> \<not> armed r n \<and> settle_count r n = 1)) \<and>
         (\<forall>n. n = 0 \<or> requestIdCounter r < n \<longrightarrow>
            \<not> pending r n \<and> \<not> armed r n \<and> settle_count r n = 0) \<and>
         (\<forall>s m now. onMessage s (DiscoverResponse m) now r = onResponse s m r \<and>
                    onMessage s (ApiResponse m) now r = onResponse s m r)"
proof -
  from r have inv: "relay_inv r" by (simp add: relay_run_inv)
  then have it: "inv_tables r" and im: "inv_timers r" and ise: "inv_settled r"
    and ii: "inv_issued r"
    by (simp_all add: relay_inv_def)
  have 1: "timers r (h_timer h) \<noteq> None \<and>
      resp_requestId m = ''req-'' @ dec (h_caller h) \<and>
      timers (onResponse s m r) (h_timer h) = None \<and>
      tables (onResponse s m r) (requestHandlers c) (resp_requestId m) = None \<and>
      settled (onResponse s m r) = settled r @ [(h_caller h, Resolved m)]"
    if k: "registeredKey r s = Some key" and c: "connections r key = Some c"
      and e: "tables r (requestHandlers c) (resp_requestId m) = Some h" for s key c m h
  proof -
    from k c e have "onResponse s m r = invokeHandler h m r"
      by (simp add: onResponse_def)
    with invokeHandler_settle [OF it e]
    have "onResponse s m r =
        settle (requestHandlers c) (resp_requestId m) (h_timer h) (h_caller h) (Resolved m) r"
      by simp
    with inv_tablesD(3,7) [OF it e] show ?thesis
      by (auto simp: settle_fields)
  qed
  have 2: "tables r (tc_table cl) (tc_requestId cl) \<noteq> None \<and>
      timers (timeoutFires tid r) tid = None \<and>
      tables (timeoutFires tid r) (tc_table cl) (tc_requestId cl) = None \<and>
      settled (timeoutFires tid r) = settled r @ [(tc_caller cl, Rejected ''Request timeout'')]"
    if t: "timers r tid = Some cl" for tid cl
    using inv_timersD(2) [OF im t] timeoutFires_settle [OF im t]
    by (simp add: settle_fields)
  have 3: "onResponse s m r = r"
    if "\<forall>key c. registeredKey r s = Some key \<and> connections r key = Some c \<longrightarrow>
         tables r (requestHandlers c) (resp_requestId m) = None" for s m
    using that by (auto simp: onResponse_def split: option.splits)
  have 4: "timeoutFires tid r = r" if "timers r tid = None" for tid
    using that by (simp add: timeoutFires_def)
  have 5: "(pending r n \<and> armed r n \<and> settle_count r n = 0) \<or>
      (\<not> pending r n \<and> \<not> armed r n \<and> settle_count r n = 1)"
    if n: "1 \<le> n \<and> n \<le> requestIdCounter r" for n
  proof (cases "pending r n")
    case True
    from pending_facts(1,2) [OF inv True] True show ?thesis
      by (simp add: settle_count_inv [OF ise])
  next
    case False
    with ii n have "n \<in> fst ` set (settled r)"
      unfolding inv_issued_def by blast
    with False armed_pending [OF inv, of n] show ?thesis
      by (auto simp: settle_count_inv [OF ise])
  qed
  have 6: "\<not> pending r n \<and> \<not> armed r n \<and> settle_count r n = 0"
    if n: "n = 0 \<or> requestIdCounter r < n" for n
  proof -
    from n pending_facts(3,4) [OF inv, of n] have np: "\<not> pending r n" by auto
    with armed_pending [OF inv, of n] have "\<not> armed r n" by blast
    moreover from n ise have "n \<notin> fst ` set (settled r)"
      unfolding inv_settled_def by fastforce
    ultimately show ?thesis using np by (simp add: settle_count_inv [OF ise])
  qed
  have 7: "onMessage s (DiscoverResponse m) now r = onResponse s m r \<and>
      onMessage s (ApiResponse m) now r = onResponse s m r" for s m now
    by simp
  from 1 2 3 4 5 6 7 show ?thesis by blast
qed

text \<open>
  The theorem at a relay with one call in flight: the answer resolves it, the timeout
  rejects it, a response with another id and a timer that was never set do nothing.
\<close>

lemma relay_sent_eval:
  "registeredKey relay_sent 1 = Some ''a.church.tools:u1''"
  "connections relay_sent ''a.church.tools:u1'' = Some conn0"
  "tables relay_sent 0 ''req-1'' =
     Some \<lparr> h_table = 0, h_requestId = ''req-1'', h_timer = 0, h_caller = 1 \<rparr>"
  "timers relay_sent 0 =
     Some \<lparr> tc_table = 0, tc_requestId = ''req-1'', tc_caller = 1, tc_delay = 30000 \<rparr>"
  "settled relay_sent = []"
  "requestIdCounter relay_sent = 1"
  by (simp_all add: relay_sent_def relay_run_def relay_init_def onRegister_def reg0_def falsy_def
      or_else_def connectionKey_def Let_def conn0_def req0_def discover_begin_def
      getChurchToolsUrl_def referrer_of_def hn0_def findAndAuthenticateConnection_def
      relay_call_def sendToProxy_def dec_Suc_0)

theorem C1_witness:
  "settled (onResponse 1 resp1 relay_sent) = [(1, Resolved resp1)] \<and>
   timers (onResponse 1 resp1 relay_sent) 0 = None \<and>
   tables (onResponse 1 resp1 relay_sent) 0 ''req-1'' = None \<and>
   settled (timeoutFires 0 relay_sent) = [(1, Rejected ''Request timeout'')] \<and>
   tables (timeoutFires 0 relay_sent) 0 ''req-1'' = None \<and>
   onResponse 1 (resp1\<lparr> resp_requestId := ''req-2'' \<rparr>) relay_sent = relay_sent \<and>
   timeoutFires 1 relay_sent = relay_sent \<and>
   pending relay_sent 1 \<and> armed relay_sent 1 \<and> settle_count relay_sent 1 = 0 \<and>
   \<not> pending relay_sent 2 \<and> \<not> armed relay_sent 2 \<and> settle_count relay_sent 2 = 0"
proof -
  note th = C1_pending_entry_destroyed_exactly_once [OF relay_sent_def]
  have c0: "requestHandlers conn0 = 0" by (simp add: conn0_def)
  have r1: "resp_requestId resp1 = ''req-1''" by (simp add: resp1_def)
  from th [THEN conjunct1, rule_format, of 1 "''a.church.tools:u1''" conn0 resp1
      "\<lparr> h_table = 0, h_requestId = ''req-1'', h_timer = 0, h_caller = 1 \<rparr>"]
    relay_sent_eval c0 r1
  have a: "timers (onResponse 1 resp1 relay_sent) 0 = None \<and>
      tables (onResponse 1 resp1 relay_sent) 0 ''req-1'' = None \<and>
      settled (onResponse 1 resp1 relay_sent) = [(1, Resolved resp1)]"
    by simp
  from th [THEN conjunct2, THEN conjunct1, rule_format, OF relay_sent_eval(4)] relay_sent_eval(5)
  have b: "tables (timeoutFires 0 relay_sent) 0 ''req-1'' = None \<and>
     settled (timeoutFires 0 relay_sent) = [(1, Rejected ''Request timeout'')]"
    by simp
  have nomatch: "\<forall>key c. registeredKey relay_sent 1 = Some key \<and> connections relay_sent key = Some c \<longrightarrow>
      tables relay_sent (requestHandlers c) (resp_requestId (resp1\<lparr> resp_requestId := ''req-2'' \<rparr>)) = None"
    by (simp add: relay_sent_def relay_run_def relay_init_def onRegister_def reg0_def falsy_def
      or_else_def connectionKey_def Let_def conn0_def req0_def discover_begin_def
      getChurchToolsUrl_def referrer_of_def hn0_def findAndAuthenticateConnection_def
      relay_call_def sendToProxy_def dec_Suc_0)
  from th [THEN conjunct2, THEN conjunct2, THEN conjunct1, rule_format, OF nomatch [rule_format]]
  have c: "onResponse 1 (resp1\<lparr> resp_requestId := ''req-2'' \<rparr>) relay_sent = relay_sent"
    by simp
  have "timers relay_sent 1 = None"
    by (simp add: relay_sent_def relay_run_def relay_init_def onRegister_def reg0_def falsy_def
      or_else_def connectionKey_def Let_def conn0_def req0_def discover_begin_def
      getChurchToolsUrl_def referrer_of_def hn0_def findAndAuthenticateConnection_def
      relay_call_def sendToProxy_def dec_Suc_0)
  from th [THEN conjunct2, THEN conjunct2, THEN conjunct2, THEN conjunct1, rule_format, OF this]
  have d: "timeoutFires 1 relay_sent = relay_sent" .
  from th [THEN conjunct2, THEN conjunct2, THEN conjunct2, THEN conjunct2, THEN conjunct1,
      rule_format, of 1] relay_sent_eval(6)
  have "(pending relay_sent 1 \<and> armed relay_sent 1 \<and> settle_count relay_sent 1 = 0) \<or>
     (\<not> pending relay_sent 1 \<and> \<not> armed relay_sent 1 \<and> settle_count relay_sent 1 = 1)"
    by simp
  moreover have "settle_count relay_sent 1 = 0"
    by (simp add: settle_count_def relay_sent_eval)
  ultimately have e: "pending relay_sent 1 \<and> armed relay_sent 1 \<and> settle_count relay_sent 1 = 0"
    by auto
  from th [THEN conjunct2, THEN conjunct2, THEN conjunct2, THEN conjunct2, THEN conjunct2,
      THEN conjunct1, rule_format, of 2] relay_sent_eval(6)
  have f: "\<not> pending relay_sent 2 \<and> \<not> armed relay_sent 2 \<and> settle_count relay_sent 2 = 0"
    by simp
  from a b c d e f show ?thesis by simp
qed

subsection \<open>C2: the data-path authentication check\<close>

text \<open>
  Claim C2. For every Session \<open>s\<close> of a reachable relay state and every presented
  secret \<open>x\<close>, \<open>findAndAuthenticateConnection\<close> accepts iff \<open>s\<close> is public or \<open>x\<close> is
  exactly the Session's secret; a Session that is not public rejects an absent and an
  empty secret; a public Session accepts any secret and none.
\<close>

theorem C2_data_path_authentication:
  assumes s: "connections (relay_run hostname_of evs) (connectionKey url u) = Some s"
    and u: "u \<noteq> []"
  shows "(findAndAuthenticateConnection (relay_run hostname_of evs) url x (Some u) = AuthOk s
            \<longleftrightarrow> public s \<or> x = Some (secret s)) \<and>
         (\<not> (public s \<or> x = Some (secret s)) \<longrightarrow>
            findAndAuthenticateConnection (relay_run hostname_of evs) url x (Some u)
              = AuthError ''Invalid secret'' 403) \<and>
         (\<not> public s \<longrightarrow>
            findAndAuthenticateConnection (relay_run hostname_of evs) url None (Some u)
              = AuthError ''Invalid secret'' 403 \<and>
            findAndAuthenticateConnection (relay_run hostname_of evs) url (Some []) (Some u)
              = AuthError ''Invalid secret'' 403) \<and>
         (public s \<longrightarrow>
            findAndAuthenticateConnection (relay_run hostname_of evs) url x (Some u) = AuthOk s \<and>
            findAndAuthenticateConnection (relay_run hostname_of evs) url None (Some u) = AuthOk s)"
proof -
  from relay_run_secrets [of hostname_of evs] s have "secret s \<noteq> []"
    unfolding inv_secrets_def by blast
  with s u show ?thesis
    by (auto simp: findAndAuthenticateConnection_def)
qed

lemma relay_public_eval:
  "connections relay_public (connectionKey ''a.church.tools'' ''u1'') =
     Some (conn0\<lparr> public := True \<rparr>)"
  by (simp add: relay_public_def relay_run_def relay_init_def onRegister_def reg0_def falsy_def
      or_else_def connectionKey_def Let_def conn0_def)

lemma run_reg0:
  "connections (relay_run hn0 [SocketMessage 1 (Register reg0) 0]) (connectionKey ''a.church.tools'' ''u1'')
     = Some conn0"
  by (simp add: relay_run_def relay_init_def onRegister_def reg0_def falsy_def
      or_else_def connectionKey_def Let_def conn0_def)

theorem C2_witness:
  "findAndAuthenticateConnection (relay_run hn0 [SocketMessage 1 (Register reg0) 0])
      ''a.church.tools'' (Some ''s1'') (Some ''u1'') = AuthOk conn0 \<and>
   findAndAuthenticateConnection (relay_run hn0 [SocketMessage 1 (Register reg0) 0])
      ''a.church.tools'' None (Some ''u1'') = AuthError ''Invalid secret'' 403 \<and>
   findAndAuthenticateConnection (relay_run hn0 [SocketMessage 1 (Register reg0) 0])
      ''a.church.tools'' (Some []) (Some ''u1'') = AuthError ''Invalid secret'' 403 \<and>
   findAndAuthenticateConnection (relay_run hn0 [SocketMessage 1 (Register reg0) 0])
      ''a.church.tools'' (Some ''guess'') (Some ''u1'') = AuthError ''Invalid secret'' 403 \<and>
   findAndAuthenticateConnection relay_public ''a.church.tools'' (Some ''guess'') (Some ''u1'')
      = AuthOk (conn0\<lparr> public := True \<rparr>) \<and>
   findAndAuthenticateConnection relay_public ''a.church.tools'' None (Some ''u1'')
      = AuthOk (conn0\<lparr> public := True \<rparr>)"
  using C2_data_path_authentication [OF run_reg0, of "Some ''s1''"]
    C2_data_path_authentication [OF run_reg0, of "Some ''guess''"]
    C2_data_path_authentication [OF relay_public_eval [unfolded relay_public_def], of "Some ''guess''"]
  by (simp add: conn0_def relay_public_def)

subsection \<open>C3: lookups after a registration\<close>

text \<open>
  Claim C3, at the input where the code departs from it. Socket 1 registers key
  \<open>(a.church.tools, u1)\<close>, then socket 2 registers the same key: the lookup returns the
  Session of socket 2. Then socket 1, the replaced one, closes: its \<open>close\<close> handler
  deletes the entry of its \<open>registeredKey\<close>, and the lookup finds nothing, although socket
  2 has neither closed nor been replaced (and the relay never closed it).
\<close>

theorem C3_close_of_replaced_socket_removes_session:
  "connections (relay_run hn0 [SocketMessage 1 (Register reg0) 0, SocketMessage 2 (Register reg0) 5])
      ''a.church.tools:u1'' =
     Some \<lparr> churchToolsUrl = ''a.church.tools'', secret = ''s1'', uuid = ''u1'', location = [],
            public = False, ws = 2, requestHandlers = 1, registeredAt = 5,
            proxyVersion = ''2.0.0'' \<rparr> \<and>
   connections (relay_run hn0 [SocketMessage 1 (Register reg0) 0, SocketMessage 2 (Register reg0) 5,
      SocketClose 1]) ''a.church.tools:u1'' = None \<and>
   closeCalls (relay_run hn0 [SocketMessage 1 (Register reg0) 0, SocketMessage 2 (Register reg0) 5,
      SocketClose 1]) = []"
  by (simp add: relay_run_def relay_init_def onRegister_def onClose_def reg0_def falsy_def
      or_else_def connectionKey_def Let_def)

text \<open>
  What holds of the registration itself: a valid \<open>register\<close> message stores a new
  Session for its socket under the key, with a fresh and empty handler table, and no
  other key's entry changes; and an entry of the registry changes only by a
  \<open>register\<close> message or by the close of a socket whose \<open>registeredKey\<close> is its key.
\<close>

lemma onRegister_installs:
  assumes ok: "reg_churchToolsUrl m = Some url" "url \<noteq> []" "reg_secret m = Some sec" "sec \<noteq> []"
    "reg_uuid m = Some uid" "uid \<noteq> []"
  shows "connections (onRegister s m now r) (connectionKey url uid) =
           Some \<lparr> churchToolsUrl = url, secret = sec, uuid = uid,
                  location = or_else (reg_location m) [],
                  public = (case reg_public m of None \<Rightarrow> False | Some b \<Rightarrow> b),
                  ws = s, requestHandlers = nextRef r, registeredAt = now,
                  proxyVersion = or_else (reg_proxyVersion m) ''unknown'' \<rparr> \<and>
         tables (onRegister s m now r) (nextRef r) = Map.empty \<and>
         registeredKey (onRegister s m now r) s = Some (connectionKey url uid) \<and>
         (\<forall>k. k \<noteq> connectionKey url uid \<longrightarrow>
            connections (onRegister s m now r) k = connections r k)"
  using ok by (simp add: onRegister_def falsy_def or_else_def Let_def)

lemma lookup_stable:
  "connections (relay_step hn r ev) k = connections r k \<or>
   (\<exists>s m now. ev = SocketMessage s (Register m) now) \<or>
   (\<exists>s. ev = SocketClose s \<and> registeredKey r s = Some k)"
proof (cases ev)
  case (SocketMessage s m now)
  then show ?thesis
    by (cases m) (simp_all add: onResponse_connections)
next
  case (SocketClose s)
  then show ?thesis
    by (auto simp: onClose_def split: option.splits)
next
  case (TimerFires tid)
  then show ?thesis by (simp add: timeoutFires_connections)
next
  case (HttpRequest ep req)
  then show ?thesis
    by (cases ep) (simp_all add: relay_call_connections)
qed

subsection \<open>C4: status codes of the two failure kinds\<close>

text \<open>
  Claim C4 fails on \<open>/discover\<close>: a response with \<open>success = false\<close> is answered
  with status 500 there, not 502.
\<close>

theorem C4_discover_failure_is_500:
  "status (discover_finish (Resolved resp_failed)) = 500 \<and>
   status (discover_finish (Resolved resp_failed)) \<noteq> 502 \<and>
   \<not> resp_success resp_failed"
  by (simp add: resp_failed_def json_def)

text \<open>
  Claim C4, amended. A correlator timeout is surfaced as 504 on both data-path
  endpoints; an agent-reported failure (a response with \<open>success = false\<close>) is
  surfaced as 502 on \<open>/api/*\<close> and as 500 on \<open>/discover\<close>; so on each endpoint the
  two failure kinds have distinct status codes.
\<close>

theorem C4_amended_failure_status_codes:
  "status (discover_finish (Rejected e)) = 504 \<and>
   status (api_finish (Rejected e)) = 504 \<and>
   (\<not> resp_success m \<longrightarrow>
      status (api_finish (Resolved m)) = 502 \<and> status (discover_finish (Resolved m)) = 500)"
  by (simp add: json_def)

theorem C4_witness:
  "status (api_finish (Resolved resp_failed)) = 502 \<and>
   status (discover_finish (Resolved resp_failed)) = 500 \<and>
   status (api_finish (Rejected ''Request timeout'')) = 504 \<and>
   status (discover_finish (Rejected ''Request timeout'')) = 504"
proof -
  have "\<not> resp_success resp_failed" by (simp add: resp_failed_def)
  with C4_amended_failure_status_codes [of "''Request timeout''" resp_failed]
  show ?thesis by blast
qed

text \<open>
  A successful response of the agent whose status code or headers the HTTP library
  refuses ends in the same \<open>catch\<close> as a timeout and is answered with 504; the headers
  set before the refused one stay on the answer.
\<close>

lemma api_finish_refused_by_library:
  "status (api_finish (Resolved (resp1\<lparr> resp_statusCode := Some 99 \<rparr>))) = 504 \<and>
   status (api_finish (Resolved (resp1\<lparr> resp_statusCode := Some 1000 \<rparr>))) = 504 \<and>
   api_finish (Resolved (resp1\<lparr> resp_headers := Some [(''x-a'', ''1''), (''bad name'', ''2'')] \<rparr>)) =
     \<lparr> status = 504, body = ThrownJson ''Gateway timeout'' (InvalidHeaderName ''bad name''),
       set_headers = [(''x-a'', ''1'')] \<rparr> \<and>
   api_finish (Resolved (resp1\<lparr> resp_statusCode := Some 201,
       resp_headers := Some [(''Content-Type'', ''text/plain'')] \<rparr>)) =
     \<lparr> status = 201, body = DataJson [], set_headers = [(''Content-Type'', ''text/plain'')] \<rparr>"
  by (simp add: resp1_def validHeaderName_def validHeaderValue_def tokenChar_def Let_def)

subsection \<open>C9: the presence check\<close>

text \<open>
  Claim C9. \<open>/proxycheck\<close> answers \<open>registered: true\<close> exactly when the id, the
  secret and the hostname are present, a Session is stored under (hostname, id) and the
  presented secret equals the Session's secret. Whenever it does, the data-path check
  accepts the same request. For a public Session and a presented secret that differs
  from the Session's, the data-path check accepts and \<open>/proxycheck\<close> answers
  \<open>registered: false\<close>: the presence check is strictly stronger.
\<close>

theorem C9_proxycheck_always_compares_secret:
  "(proxycheck hostname_of r req = json 200 (RegisteredJson True) \<longleftrightarrow>
      (\<exists>u x h c. hdr_x_id req = Some u \<and> u \<noteq> [] \<and> hdr_x_auth req = Some x \<and> x \<noteq> [] \<and>
         getChurchToolsUrl hostname_of (referrer_of req) = Some h \<and> h \<noteq> [] \<and>
         connections r (connectionKey h u) = Some c \<and> secret c = x)) \<and>
   (proxycheck hostname_of r req = json 200 (RegisteredJson True) \<longrightarrow>
      (\<exists>h c. getChurchToolsUrl hostname_of (referrer_of req) = Some h \<and>
         findAndAuthenticateConnection r h (hdr_x_auth req) (hdr_x_id req) = AuthOk c)) \<and>
   (\<forall>u x h c. hdr_x_id req = Some u \<and> u \<noteq> [] \<and> hdr_x_auth req = Some x \<and> x \<noteq> [] \<and>
         getChurchToolsUrl hostname_of (referrer_of req) = Some h \<and> h \<noteq> [] \<and>
         connections r (connectionKey h u) = Some c \<and> public c \<and> secret c \<noteq> x \<longrightarrow>
      proxycheck hostname_of r req = json 200 (RegisteredJson False) \<and>
      findAndAuthenticateConnection r h (hdr_x_auth req) (hdr_x_id req) = AuthOk c)"
proof (intro conjI)
  show "proxycheck hostname_of r req = json 200 (RegisteredJson True) \<longleftrightarrow>
      (\<exists>u x h c. hdr_x_id req = Some u \<and> u \<noteq> [] \<and> hdr_x_auth req = Some x \<and> x \<noteq> [] \<and>
         getChurchToolsUrl hostname_of (referrer_of req) = Some h \<and> h \<noteq> [] \<and>
         connections r (connectionKey h u) = Some c \<and> secret c = x)"
    by (auto simp: proxycheck_def json_def falsy_def or_else_def split: option.splits if_splits)
  show "proxycheck hostname_of r req = json 200 (RegisteredJson True) \<longrightarrow>
      (\<exists>h c. getChurchToolsUrl hostname_of (referrer_of req) = Some h \<and>
         findAndAuthenticateConnection r h (hdr_x_auth req) (hdr_x_id req) = AuthOk c)"
    by (auto simp: proxycheck_def json_def falsy_def or_else_def findAndAuthenticateConnection_def
        split: option.splits if_splits)
  show "\<forall>u x h c. hdr_x_id req = Some u \<and> u \<noteq> [] \<and> hdr_x_auth req = Some x \<and> x \<noteq> [] \<and>
         getChurchToolsUrl hostname_of (referrer_of req) = Some h \<and> h \<noteq> [] \<and>
         connections r (connectionKey h u) = Some c \<and> public c \<and> secret c \<noteq> x \<longrightarrow>
      proxycheck hostname_of r req = json 200 (RegisteredJson False) \<and>
      findAndAuthenticateConnection r h (hdr_x_auth req) (hdr_x_id req) = AuthOk c"
    by (auto simp: proxycheck_def json_def falsy_def or_else_def findAndAuthenticateConnection_def)
qed

theorem C9_witness:
  "proxycheck hn0 relay_public req_wrong = json 200 (RegisteredJson False) \<and>
   findAndAuthenticateConnection relay_public ''a.church.tools'' (Some ''guess'') (Some ''u1'')
     = AuthOk (conn0\<lparr> public := True \<rparr>) \<and>
   proxycheck hn0 relay_public req0 = json 200 (RegisteredJson True) \<and>
   (\<exists>h c. getChurchToolsUrl hn0 (referrer_of req0) = Some h \<and>
      findAndAuthenticateConnection relay_public h (hdr_x_auth req0) (hdr_x_id req0) = AuthOk c)"
proof -
  have w: "hdr_x_id req_wrong = Some ''u1''" "hdr_x_auth req_wrong = Some ''guess''"
    "getChurchToolsUrl hn0 (referrer_of req_wrong) = Some ''a.church.tools''"
    and g: "hdr_x_id req0 = Some ''u1''" "hdr_x_auth req0 = Some ''s1''"
    "getChurchToolsUrl hn0 (referrer_of req0) = Some ''a.church.tools''"
    and c: "public (conn0\<lparr> public := True \<rparr>)" "secret (conn0\<lparr> public := True \<rparr>) = ''s1''"
    by (simp_all add: req_wrong_def req0_def getChurchToolsUrl_def referrer_of_def hn0_def
        falsy_def conn0_def)
  from C9_proxycheck_always_compares_secret [of hn0 relay_public req_wrong,
      THEN conjunct2, THEN conjunct2, rule_format,
      of "''u1''" "''guess''" "''a.church.tools''" "conn0\<lparr> public := True \<rparr>"]
    w c relay_public_eval
  have 1: "proxycheck hn0 relay_public req_wrong = json 200 (RegisteredJson False) \<and>
      findAndAuthenticateConnection relay_public ''a.church.tools'' (Some ''guess'') (Some ''u1'')
        = AuthOk (conn0\<lparr> public := True \<rparr>)"
    by simp
  from C9_proxycheck_always_compares_secret [of hn0 relay_public req0, THEN conjunct1]
    g c relay_public_eval
  have 2: "proxycheck hn0 relay_public req0 = json 200 (RegisteredJson True)"
    by simp
  from C9_proxycheck_always_compares_secret [of hn0 relay_public req0,
      THEN conjunct2, THEN conjunct1, rule_format, OF 2]
  have 3: "\<exists>h c. getChurchToolsUrl hn0 (referrer_of req0) = Some h \<and>
      findAndAuthenticateConnection relay_public h (hdr_x_auth req0) (hdr_x_id req0) = AuthOk c" .
  from 1 2 3 show ?thesis by simp
qed

section \<open>The agent keeps its invariant\<close>

lemma auto_inv_init: "auto_inv agent_init"
  by (simp add: auto_inv_def inv_states_def inv_owned_def agent_init_def)

lemma auto_inv_frame:
  assumes inv: "auto_inv a"
    and s: "autoRequestStates a' = autoRequestStates a"
    and n: "anextTimer a \<le> anextTimer a'"
    and t: "\<And>tid tm. atimers a' tid = Some tm \<Longrightarrow>
              atimers a tid = Some tm \<or> owner (callback tm) = None"
  shows "auto_inv a'"
proof -
  from inv have a: "inv_states a" and b: "inv_owned a" by (simp_all add: auto_inv_def)
  have "inv_states a'"
    unfolding inv_states_def
  proof (intro allI impI)
    fix key st
    assume "autoRequestStates a' key = Some st"
    with s a n show "state_key st = key \<and>
        (\<exists>i t. intervalTimer st = Some i \<and> timeoutTimer st = Some t \<and>
               i < anextTimer a' \<and> t < anextTimer a' \<and> i \<noteq> t)"
      unfolding inv_states_def by fastforce
  qed
  moreover have "inv_owned a'"
    unfolding inv_owned_def
  proof (intro allI impI)
    fix tid tm key
    assume x: "atimers a' tid = Some tm" and o: "owner (callback tm) = Some key"
    from t [OF x] o have "atimers a tid = Some tm" by auto
    with b o s show "\<exists>st. autoRequestStates a' key = Some st \<and> belongs (callback tm) tid st"
      unfolding inv_owned_def by auto
  qed
  ultimately show ?thesis by (simp add: auto_inv_def)
qed

lemma clearTimer_inv: "auto_inv a \<Longrightarrow> auto_inv (clearTimer tid a)"
  by (erule auto_inv_frame) (auto simp: clearTimer_def split: if_splits)

lemma setTimer_unowned_inv: "auto_inv a \<Longrightarrow> owner cb = None \<Longrightarrow> auto_inv (setTimer cb ms rep a)"
  by (erule auto_inv_frame) (auto simp: setTimer_def split: if_splits)

lemma cleanup_fields:
  "anextTimer (cleanupAutoRequests key a) = anextTimer a"
  "autoRequestStates (cleanupAutoRequests key a) k =
     (if k = key then None else autoRequestStates a k)"
  "atimers (cleanupAutoRequests key a) tid =
     (case autoRequestStates a key of
        None \<Rightarrow> atimers a tid
      | Some st \<Rightarrow> if tid \<in> state_timers st then None else atimers a tid)"
  by (auto simp: cleanupAutoRequests_def Let_def clearTimer_def state_timers_def
      split: option.splits)

lemma cleanup_inv:
  assumes inv: "auto_inv a"
  shows "auto_inv (cleanupAutoRequests key a)"
proof -
  let ?a = "cleanupAutoRequests key a"
  from inv have a: "inv_states a" and b: "inv_owned a" by (simp_all add: auto_inv_def)
  have "inv_states ?a"
    using a unfolding inv_states_def by (simp add: cleanup_fields)
  moreover have "inv_owned ?a"
    unfolding inv_owned_def
  proof (intro allI impI)
    fix tid tm k
    assume x: "atimers ?a tid = Some tm" and o: "owner (callback tm) = Some k"
    from x have y: "atimers a tid = Some tm"
      by (simp add: cleanup_fields split: option.splits if_splits)
    with b o obtain st where st: "autoRequestStates a k = Some st" "belongs (callback tm) tid st"
      unfolding inv_owned_def by blast
    have "k \<noteq> key"
    proof
      assume "k = key"
      with st o have "tid \<in> state_timers st"
        by (cases "callback tm") (auto simp: state_timers_def)
      with x st \<open>k = key\<close> show False by (simp add: cleanup_fields)
    qed
    with st show "\<exists>st. autoRequestStates ?a k = Some st \<and> belongs (callback tm) tid st"
      by (simp add: cleanup_fields)
  qed
  ultimately show ?thesis by (simp add: auto_inv_def)
qed

lemma install_fields:
  "anextTimer (install key tick st a) = anextTimer a + 2"
  "autoRequestStates (install key tick st a) k =
     (if k = key then Some st else autoRequestStates a k)"
  "atimers (install key tick st a) tid =
     (if tid = anextTimer a + 1
      then Some \<lparr> callback = AutoRequestExpiry key, delay_ms = AUTO_REQUEST_DURATION_MS, repeats = False \<rparr>
      else if tid = anextTimer a
      then Some \<lparr> callback = tick st, delay_ms = AUTO_REQUEST_INTERVAL_MS, repeats = True \<rparr>
      else atimers a tid)"
  by (simp_all add: install_def Let_def setTimer_def)

lemma install_inv:
  assumes inv: "auto_inv a"
    and none: "autoRequestStates a key = None"
    and st: "state_key st = key" "intervalTimer st = Some (anextTimer a)"
      "timeoutTimer st = Some (anextTimer a + 1)"
    and tick: "(tick = AuthRetryTick \<and> as_state st = AuthRetry) \<or>
               (tick = PingKeepaliveTick \<and> as_state st = PingKeepalive)"
  shows "auto_inv (install key tick st a)"
proof -
  let ?a = "install key tick st a"
  from inv have a: "inv_states a" and b: "inv_owned a" by (simp_all add: auto_inv_def)
  have "inv_states ?a"
    unfolding inv_states_def
  proof (intro allI impI)
    fix k s
    assume x: "autoRequestStates ?a k = Some s"
    show "state_key s = k \<and>
        (\<exists>i t. intervalTimer s = Some i \<and> timeoutTimer s = Some t \<and>
               i < anextTimer ?a \<and> t < anextTimer ?a \<and> i \<noteq> t)"
    proof (cases "k = key")
      case True
      with x st show ?thesis by (simp add: install_fields)
    next
      case False
      with x have "autoRequestStates a k = Some s" by (simp add: install_fields)
      with a show ?thesis unfolding inv_states_def by (fastforce simp: install_fields)
    qed
  qed
  moreover have "inv_owned ?a"
    unfolding inv_owned_def
  proof (intro allI impI)
    fix tid tm k
    assume x: "atimers ?a tid = Some tm" and o: "owner (callback tm) = Some k"
    consider (expiry) "tid = anextTimer a + 1" | (interval) "tid = anextTimer a"
      | (old) "tid \<noteq> anextTimer a + 1" "tid \<noteq> anextTimer a" by blast
    then show "\<exists>s. autoRequestStates ?a k = Some s \<and> belongs (callback tm) tid s"
    proof cases
      case expiry
      with x o st show ?thesis by (auto simp: install_fields)
    next
      case interval
      with x o st tick show ?thesis by (auto simp: install_fields)
    next
      case old
      with x have y: "atimers a tid = Some tm" by (simp add: install_fields)
      with b o obtain s where s: "autoRequestStates a k = Some s" "belongs (callback tm) tid s"
        unfolding inv_owned_def by blast
      with none have "k \<noteq> key" by auto
      with s show ?thesis by (simp add: install_fields)
    qed
  qed
  ultimately show ?thesis by (simp add: auto_inv_def)
qed

lemma startAuthRetry_install:
  "startAuthRetry deviceId authToken ip port meth bdy now a =
     (let key = getAutoRequestStateKey deviceId authToken;
          a1 = cleanupAutoRequests key a
      in install key AuthRetryTick
           \<lparr> as_deviceId = deviceId, as_authToken = authToken, as_deviceIp = ip,
             as_devicePort = port, as_method = Some meth, as_body = bdy,
             as_state = AuthRetry,
             intervalTimer = Some (anextTimer a1),
             timeoutTimer = Some (anextTimer a1 + 1),
             startTime = now \<rparr> a1)"
  by (simp add: startAuthRetry_def install_def Let_def)

lemma startPingKeepalive_install:
  "startPingKeepalive deviceId authToken ip port now a =
     (let key = getAutoRequestStateKey deviceId authToken;
          a1 = cleanupAutoRequests key a
      in install key PingKeepaliveTick
           \<lparr> as_deviceId = deviceId, as_authToken = authToken, as_deviceIp = ip,
             as_devicePort = port, as_method = None, as_body = None,
             as_state = PingKeepalive,
             intervalTimer = Some (anextTimer a1),
             timeoutTimer = Some (anextTimer a1 + 1),
             startTime = now \<rparr> a1)"
  by (simp add: startPingKeepalive_def install_def Let_def)

lemma startAuthRetry_inv:
  "auto_inv a \<Longrightarrow> auto_inv (startAuthRetry deviceId authToken ip port meth bdy now a)"
  unfolding startAuthRetry_install Let_def
  by (rule install_inv) (simp_all add: cleanup_inv cleanup_fields state_key_def)

lemma startPingKeepalive_inv:
  "auto_inv a \<Longrightarrow> auto_inv (startPingKeepalive deviceId authToken ip port now a)"
  unfolding startPingKeepalive_install Let_def
  by (rule install_inv) (simp_all add: cleanup_inv cleanup_fields state_key_def)

lemma wsSend_inv: "auto_inv a \<Longrightarrow> wsSend m a = Some a' \<Longrightarrow> auto_inv a'"
  by (erule auto_inv_frame) (auto simp: wsSend_def split: option.splits if_splits)

lemma issueCall_inv: "auto_inv a \<Longrightarrow> auto_inv (issueCall k a)"
  by (erule auto_inv_frame) (auto simp: issueCall_def)

lemma authRetryDone_inv: "auto_inv a \<Longrightarrow> auto_inv (authRetryDone st res now a)"
  by (auto simp: authRetryDone_def Let_def clearTimer_inv startPingKeepalive_inv
      split: http_outcome.splits option.splits)

lemma autoRequestTrigger_inv: "auto_inv a \<Longrightarrow> auto_inv (autoRequestTrigger m ip res now a)"
  by (auto simp: autoRequestTrigger_def startAuthRetry_inv startPingKeepalive_inv
      split: http_outcome.splits option.splits)

lemma apiRequestDone_inv: "auto_inv a \<Longrightarrow> auto_inv (apiRequestDone m res now a)"
  by (auto simp: apiRequestDone_def Let_def autoRequestTrigger_inv
      split: option.splits intro: wsSend_inv [OF autoRequestTrigger_inv])

lemma resetWatchdog_inv: "auto_inv a \<Longrightarrow> auto_inv (resetWatchdog now a)"
  by (erule auto_inv_frame) (auto simp: resetWatchdog_def)

lemma handleMessage_inv: "auto_inv a \<Longrightarrow> auto_inv (handleMessage m now a)"
  by (cases m)
    (auto simp: issueCall_inv split: option.splits
      intro: wsSend_inv resetWatchdog_inv [OF wsSend_inv])

lemma onUp_inv: "auto_inv a \<Longrightarrow> auto_inv (onUp svc a)"
  by (erule auto_inv_frame)
    (auto simp: onUp_def Let_def clearTimer_def split: option.splits if_splits)

lemma onDown_inv: "auto_inv a \<Longrightarrow> auto_inv (onDown svc a)"
  by (erule auto_inv_frame)
    (auto simp: onDown_def Let_def setTimer_def split: option.splits if_splits)

lemma removeDevice_inv: "auto_inv a \<Longrightarrow> auto_inv (removeDevice d a)"
  by (erule auto_inv_frame) (auto simp: removeDevice_def split: if_splits)

lemma stopWatchdog_inv: "auto_inv a \<Longrightarrow> auto_inv (stopWatchdog a)"
  by (erule auto_inv_frame)
    (auto simp: stopWatchdog_def clearTimer_def split: option.splits if_splits)

lemma watchdogCheck_inv: "auto_inv a \<Longrightarrow> auto_inv (watchdogCheck now a)"
  by (erule auto_inv_frame)
    (auto simp: watchdogCheck_def Let_def stopWatchdog_def clearTimer_def setTimer_def
      terminate_def split: option.splits if_splits)

lemma connect_inv: "auto_inv a \<Longrightarrow> auto_inv (connect a)"
  by (erule auto_inv_frame) (auto simp: connect_def Let_def split: option.splits if_splits)

lemma startWatchdog_inv: "auto_inv a \<Longrightarrow> auto_inv (startWatchdog now a)"
  by (erule auto_inv_frame)
    (auto simp: startWatchdog_def Let_def clearTimer_def setTimer_def
      split: option.splits if_splits)

lemma onWsOpen_inv: "auto_inv a \<Longrightarrow> auto_inv (onWsOpen s now a)"
  by (erule auto_inv_frame)
    (auto simp: onWsOpen_def wsSend_def startWatchdog_def Let_def clearTimer_def setTimer_def
      split: option.splits if_splits)

lemma onWsClose_inv: "auto_inv a \<Longrightarrow> auto_inv (onWsClose s a)"
  by (erule auto_inv_frame)
    (auto simp: onWsClose_def stopWatchdog_def Let_def clearTimer_def setTimer_def
      split: option.splits if_splits)

lemma timerFired_inv:
  assumes inv: "auto_inv a"
  shows "auto_inv (timerFired tid now a)"
proof (cases "atimers a tid")
  case None
  with inv show ?thesis by (simp add: timerFired_def)
next
  case (Some tm)
  let ?a1 = "if repeats tm then a else clearTimer tid a"
  from inv have a1: "auto_inv ?a1" by (simp add: clearTimer_inv)
  have "auto_inv (case callback tm of
                RemoveDevice deviceId \<Rightarrow> removeDevice deviceId ?a1
              | WatchdogCheck \<Rightarrow> watchdogCheck now ?a1
              | Reconnect \<Rightarrow> connect ?a1
              | ReconnectAfterClose \<Rightarrow> connect (?a1\<lparr> reconnectTimer := None \<rparr>)
              | AuthRetryTick st \<Rightarrow> issueCall (AuthRetryCont st) ?a1
              | PingKeepaliveTick st \<Rightarrow> issueCall (PingKeepaliveCont st) ?a1
              | AutoRequestExpiry stateKey \<Rightarrow> cleanupAutoRequests stateKey ?a1)"
  proof (cases "callback tm")
    case ReconnectAfterClose
    have "auto_inv (?a1\<lparr> reconnectTimer := None \<rparr>)"
      by (rule auto_inv_frame [OF a1]) auto
    with ReconnectAfterClose show ?thesis by (simp add: connect_inv)
  qed (use a1 in \<open>simp_all add: removeDevice_inv watchdogCheck_inv issueCall_inv cleanup_inv
        connect_inv\<close>)
  with Some show ?thesis by (simp add: timerFired_def Let_def)
qed

lemma callDone_inv:
  assumes inv: "auto_inv a"
  shows "auto_inv (callDone cid res now a)"
proof (cases "inflight a cid")
  case None
  with inv show ?thesis by (simp add: callDone_def)
next
  case (Some k)
  have a1: "auto_inv (a\<lparr> inflight := (inflight a)(cid := None) \<rparr>)"
    by (rule auto_inv_frame [OF inv]) auto
  with Some show ?thesis
    by (cases k) (simp_all add: callDone_def Let_def apiRequestDone_inv authRetryDone_inv)
qed

lemma deliver_inv: "auto_inv a \<Longrightarrow> auto_inv (deliver a ev)"
  by (cases ev)
    (simp_all add: onUp_inv onDown_inv handleMessage_inv timerFired_inv callDone_inv
      connect_inv onWsOpen_inv onWsClose_inv)

lemma agent_step_inv: "auto_inv a \<Longrightarrow> auto_inv (agent_step a ev)"
  by (simp add: agent_step_def deliver_inv)

lemma agent_run_inv: "auto_inv a \<Longrightarrow> auto_inv (agent_run a evs)"
  unfolding agent_run_def
  by (induction evs arbitrary: a) (simp_all add: agent_step_inv)

lemma interval_timers_sub:
  assumes "auto_inv a"
  shows "interval_timers a key \<subseteq>
     (case autoRequestStates a key of None \<Rightarrow> {} | Some st \<Rightarrow> set_option (intervalTimer st))"
proof
  fix tid
  assume "tid \<in> interval_timers a key"
  then obtain tm st where x: "atimers a tid = Some tm" "state_key st = key"
    "callback tm = AuthRetryTick st \<or> callback tm = PingKeepaliveTick st"
    unfolding interval_timers_def by blast
  then have "owner (callback tm) = Some key" by auto
  with assms x(1) obtain s where s: "autoRequestStates a key = Some s" "belongs (callback tm) tid s"
    unfolding auto_inv_def inv_owned_def by blast
  with x(3) show "tid \<in> (case autoRequestStates a key of None \<Rightarrow> {} | Some st \<Rightarrow> set_option (intervalTimer st))"
    by auto
qed

lemma expiry_timers_sub:
  assumes "auto_inv a"
  shows "expiry_timers a key \<subseteq>
     (case autoRequestStates a key of None \<Rightarrow> {} | Some st \<Rightarrow> set_option (timeoutTimer st))"
proof
  fix tid
  assume "tid \<in> expiry_timers a key"
  then obtain tm where x: "atimers a tid = Some tm" "callback tm = AutoRequestExpiry key"
    unfolding expiry_timers_def by blast
  then have "owner (callback tm) = Some key" by auto
  with assms x(1) obtain s where s: "autoRequestStates a key = Some s" "belongs (callback tm) tid s"
    unfolding auto_inv_def inv_owned_def by blast
  with x(2) show "tid \<in> (case autoRequestStates a key of None \<Rightarrow> {} | Some st \<Rightarrow> set_option (timeoutTimer st))"
    by auto
qed

lemma auto_timers_sub:
  assumes "auto_inv a"
  shows "auto_timers a key \<subseteq>
     (case autoRequestStates a key of None \<Rightarrow> {} | Some st \<Rightarrow> state_timers st)"
proof
  fix tid
  assume "tid \<in> auto_timers a key"
  then obtain tm where x: "atimers a tid = Some tm" "owner (callback tm) = Some key"
    unfolding auto_timers_def by blast
  with assms obtain s where s: "autoRequestStates a key = Some s" "belongs (callback tm) tid s"
    unfolding auto_inv_def inv_owned_def by blast
  from s(2) x(2) have "tid \<in> state_timers s"
    by (cases "callback tm") (auto simp: state_timers_def)
  with s(1) show "tid \<in> (case autoRequestStates a key of None \<Rightarrow> {} | Some st \<Rightarrow> state_timers st)"
    by simp
qed

lemma card_sub_option: "A \<subseteq> (case x of None \<Rightarrow> {} | Some st \<Rightarrow> set_option (f st)) \<Longrightarrow> card A \<le> 1"
proof -
  assume a: "A \<subseteq> (case x of None \<Rightarrow> {} | Some st \<Rightarrow> set_option (f st))"
  have "\<exists>y. A \<subseteq> {y}"
    using a by (cases x; cases "f (the x)") auto
  then obtain y where "A \<subseteq> {y}" ..
  then have "card A \<le> card {y}" by (intro card_mono) simp_all
  then show ?thesis by simp
qed

lemma install_after_cleanup:
  assumes inv: "auto_inv a"
    and old: "autoRequestStates a key = Some old"
    and st: "state_key st = key" "intervalTimer st = Some (anextTimer a)"
      "timeoutTimer st = Some (anextTimer a + 1)"
    and tick: "(tick = AuthRetryTick \<and> as_state st = AuthRetry) \<or>
               (tick = PingKeepaliveTick \<and> as_state st = PingKeepalive)"
  shows "(\<forall>t \<in> state_timers old. atimers (install key tick st (cleanupAutoRequests key a)) t = None) \<and>
         autoRequestStates (install key tick st (cleanupAutoRequests key a)) key = Some st \<and>
         auto_timers (install key tick st (cleanupAutoRequests key a)) key = state_timers st \<and>
         state_timers st \<inter> state_timers old = {} \<and> card (state_timers st) = 2"
proof -
  let ?a1 = "cleanupAutoRequests key a"
  let ?a = "install key tick st ?a1"
  have n: "anextTimer ?a1 = anextTimer a" by (simp add: cleanup_fields)
  from inv old have lt: "\<forall>t \<in> state_timers old. t < anextTimer a"
    unfolding auto_inv_def inv_states_def state_timers_def by fastforce
  with old have 1: "\<forall>t \<in> state_timers old. atimers ?a t = None"
    by (auto simp: install_fields cleanup_fields)
  have 2: "autoRequestStates ?a key = Some st" by (simp add: install_fields)
  have ts: "state_timers st = {anextTimer a, anextTimer a + 1}"
    using st by (auto simp: state_timers_def)
  have "auto_inv ?a"
    by (rule install_inv) (simp_all add: cleanup_inv [OF inv] cleanup_fields st tick)
  from auto_timers_sub [OF this, of key] 2 have sub: "auto_timers ?a key \<subseteq> state_timers st"
    by simp
  have ow: "owner (tick st) = Some key"
    using tick st(1) by auto
  have "anextTimer a \<in> auto_timers ?a key" "anextTimer a + 1 \<in> auto_timers ?a key"
    unfolding auto_timers_def using ow by (simp_all add: install_fields n)
  with sub ts have 3: "auto_timers ?a key = state_timers st" by auto
  from lt ts have 4: "state_timers st \<inter> state_timers old = {}" by auto
  from ts have 5: "card (state_timers st) = 2" by simp
  from 1 2 3 4 5 show ?thesis by blast
qed

section \<open>The agent keeps the invariant of its watchdog\<close>

text \<open>
  Three ways a handler keeps \<open>wd_inv\<close>: it leaves the connection and the watchdog as
  they are and only clears timers that are not the watchdog's or arms new ones that
  are no checks (\<open>wd_frame\<close>); it ends with the watchdog stopped
  (\<open>wd_unarmed_frame\<close>); it ends with the watchdog started on a fresh timer
  (\<open>wd_armed_frame\<close>).
\<close>

lemma wd_inv_init: "wd_inv agent_init"
  by (simp add: wd_inv_def agent_init_def stored_handles_def)

lemma wd_frame:
  assumes inv: "wd_inv a"
    and conn: "watchdogTimer a' = watchdogTimer a" "isConnected a' = isConnected a"
      "exited a' = exited a" "agent_ws a' = agent_ws a" "sockets a' = sockets a"
    and lp: "lastPingTime a \<noteq> None \<Longrightarrow> lastPingTime a' \<noteq> None"
    and n: "anextTimer a \<le> anextTimer a'"
    and t: "\<And>tid. atimers a' tid = atimers a tid \<or>
              (atimers a' tid = None \<and> watchdogTimer a \<noteq> Some tid) \<or>
              (anextTimer a \<le> tid \<and> tid < anextTimer a' \<and>
               (\<forall>tm. atimers a' tid = Some tm \<longrightarrow> callback tm \<noteq> WatchdogCheck))"
    and h: "\<And>h. h \<in> stored_handles a' \<Longrightarrow>
              h \<in> stored_handles a \<or> (anextTimer a \<le> h \<and> h < anextTimer a')"
  shows "wd_inv a'"
proof -
  from inv have b: "\<And>tid tm. atimers a tid = Some tm \<Longrightarrow> tid < anextTimer a"
    and o: "\<And>tid tm. atimers a tid = Some tm \<Longrightarrow> callback tm = WatchdogCheck \<Longrightarrow>
              watchdogTimer a = Some tid"
    and w: "\<And>w. watchdogTimer a = Some w \<Longrightarrow>
        atimers a w = Some \<lparr> callback = WatchdogCheck, delay_ms = 10000, repeats = True \<rparr> \<and>
        lastPingTime a \<noteq> None \<and> isConnected a \<and> \<not> exited a \<and>
        (\<exists>s. agent_ws a = Some s \<and> sockets a s = Some OPEN)"
    and l: "\<And>s. agent_ws a = Some s \<Longrightarrow> sockets a s = Some CONNECTING \<or> sockets a s = Some OPEN"
    and c: "isConnected a \<Longrightarrow> exited a \<or> watchdogTimer a \<noteq> None"
    and s: "\<And>h. h \<in> stored_handles a \<Longrightarrow> h < anextTimer a \<and> watchdogTimer a \<noteq> Some h"
    unfolding wd_inv_def by blast+
  have 1: "\<forall>tid tm. atimers a' tid = Some tm \<longrightarrow> tid < anextTimer a'"
  proof (intro allI impI)
    fix tid tm assume x: "atimers a' tid = Some tm"
    from t [of tid] x b [of tid tm] n show "tid < anextTimer a'" by auto
  qed
  have 2: "\<forall>tid tm. atimers a' tid = Some tm \<longrightarrow> callback tm = WatchdogCheck \<longrightarrow>
        watchdogTimer a' = Some tid"
  proof (intro allI impI)
    fix tid tm assume x: "atimers a' tid = Some tm" "callback tm = WatchdogCheck"
    from t [of tid] x o [of tid tm] conn(1) show "watchdogTimer a' = Some tid" by auto
  qed
  have 3: "\<forall>w. watchdogTimer a' = Some w \<longrightarrow>
        atimers a' w = Some \<lparr> callback = WatchdogCheck, delay_ms = 10000, repeats = True \<rparr> \<and>
        lastPingTime a' \<noteq> None \<and> isConnected a' \<and> \<not> exited a' \<and>
        (\<exists>s. agent_ws a' = Some s \<and> sockets a' s = Some OPEN)"
  proof (intro allI impI)
    fix w' assume "watchdogTimer a' = Some w'"
    with conn have x: "watchdogTimer a = Some w'" by simp
    from w [OF x] b [of w'] have "w' < anextTimer a" by auto
    with t [of w'] x w [OF x] have "atimers a' w' = atimers a w'" by auto
    with w [OF x] lp conn
    show "atimers a' w' = Some \<lparr> callback = WatchdogCheck, delay_ms = 10000, repeats = True \<rparr> \<and>
        lastPingTime a' \<noteq> None \<and> isConnected a' \<and> \<not> exited a' \<and>
        (\<exists>s. agent_ws a' = Some s \<and> sockets a' s = Some OPEN)" by simp
  qed
  have 4: "\<forall>s. agent_ws a' = Some s \<longrightarrow> sockets a' s = Some CONNECTING \<or> sockets a' s = Some OPEN"
    using l conn by simp
  have 5: "isConnected a' \<longrightarrow> exited a' \<or> watchdogTimer a' \<noteq> None"
    using c conn by simp
  have 6: "\<forall>h \<in> stored_handles a'. h < anextTimer a' \<and> watchdogTimer a' \<noteq> Some h"
  proof
    fix x assume "x \<in> stored_handles a'"
    from h [OF this] show "x < anextTimer a' \<and> watchdogTimer a' \<noteq> Some x"
    proof
      assume "x \<in> stored_handles a"
      from s [OF this] n conn(1) show ?thesis by simp
    next
      assume y: "anextTimer a \<le> x \<and> x < anextTimer a'"
      have "watchdogTimer a \<noteq> Some x"
      proof
        assume z: "watchdogTimer a = Some x"
        from w [OF z] b [of x] y show False by auto
      qed
      with y conn(1) show ?thesis by simp
    qed
  qed
  show ?thesis unfolding wd_inv_def
    by (intro conjI) (rule 1, rule 2, rule 3, rule 4, rule 5, rule 6)
qed

lemma wd_inv_bound: "wd_inv a \<Longrightarrow> atimers a tid = Some tm \<Longrightarrow> tid < anextTimer a"
  unfolding wd_inv_def by blast

lemma wd_inv_only: "wd_inv a \<Longrightarrow> atimers a tid = Some tm \<Longrightarrow> callback tm = WatchdogCheck \<Longrightarrow>
    watchdogTimer a = Some tid"
  unfolding wd_inv_def by blast

lemma wd_inv_armed: "wd_inv a \<Longrightarrow> watchdogTimer a = Some w \<Longrightarrow>
    atimers a w = Some \<lparr> callback = WatchdogCheck, delay_ms = 10000, repeats = True \<rparr> \<and>
    lastPingTime a \<noteq> None \<and> isConnected a \<and> \<not> exited a \<and>
    (\<exists>s. agent_ws a = Some s \<and> sockets a s = Some OPEN)"
  unfolding wd_inv_def by blast

lemma wd_inv_live: "wd_inv a \<Longrightarrow> agent_ws a = Some s \<Longrightarrow>
    sockets a s = Some CONNECTING \<or> sockets a s = Some OPEN"
  unfolding wd_inv_def by blast

lemma wd_inv_connected: "wd_inv a \<Longrightarrow> isConnected a \<Longrightarrow> exited a \<or> watchdogTimer a \<noteq> None"
  unfolding wd_inv_def by blast

lemma wd_inv_stored: "wd_inv a \<Longrightarrow> h \<in> stored_handles a \<Longrightarrow>
    h < anextTimer a \<and> watchdogTimer a \<noteq> Some h"
  unfolding wd_inv_def by blast

lemma stored_removal: "wd_inv a \<Longrightarrow> deviceRemovalTimers a d = Some h \<Longrightarrow>
    h < anextTimer a \<and> watchdogTimer a \<noteq> Some h"
  by (rule wd_inv_stored) (auto simp: stored_handles_def)

lemma stored_reconnect: "wd_inv a \<Longrightarrow> reconnectTimer a = Some h \<Longrightarrow>
    h < anextTimer a \<and> watchdogTimer a \<noteq> Some h"
  by (rule wd_inv_stored) (auto simp: stored_handles_def)

lemma stored_state: "wd_inv a \<Longrightarrow> autoRequestStates a k = Some st \<Longrightarrow> h \<in> state_timers st \<Longrightarrow>
    h < anextTimer a \<and> watchdogTimer a \<noteq> Some h"
  by (rule wd_inv_stored) (auto simp: stored_handles_def)

lemma stored_inflight: "wd_inv a \<Longrightarrow> inflight a c = Some (AuthRetryCont st) \<Longrightarrow> h \<in> state_timers st \<Longrightarrow>
    h < anextTimer a \<and> watchdogTimer a \<noteq> Some h"
  by (rule wd_inv_stored) (auto simp: stored_handles_def)

lemma onUp_wd:
  assumes inv: "wd_inv a"
  shows "wd_inv (onUp svc a)"
proof (rule wd_frame [OF inv])
  fix tid
  show "atimers (onUp svc a) tid = atimers a tid \<or>
        atimers (onUp svc a) tid = None \<and> watchdogTimer a \<noteq> Some tid \<or>
        anextTimer a \<le> tid \<and> tid < anextTimer (onUp svc a) \<and>
        (\<forall>tm. atimers (onUp svc a) tid = Some tm \<longrightarrow> callback tm \<noteq> WatchdogCheck)"
    using stored_removal [OF inv, of "getDeviceId svc"]
    by (auto simp: onUp_def Let_def clearTimer_def split: option.splits if_splits)
qed (auto simp: onUp_def Let_def clearTimer_def stored_handles_def split: option.splits if_splits)

lemma onDown_wd: "wd_inv a \<Longrightarrow> wd_inv (onDown svc a)"
  by (erule wd_frame)
    (auto simp: onDown_def Let_def setTimer_def stored_handles_def split: option.splits if_splits)

lemma removeDevice_wd: "wd_inv a \<Longrightarrow> wd_inv (removeDevice d a)"
  by (erule wd_frame)
    (auto simp: removeDevice_def stored_handles_def split: option.splits if_splits)

lemma cleanup_wd:
  assumes inv: "wd_inv a"
  shows "wd_inv (cleanupAutoRequests key a)"
proof (rule wd_frame [OF inv])
  fix tid
  show "atimers (cleanupAutoRequests key a) tid = atimers a tid \<or>
        atimers (cleanupAutoRequests key a) tid = None \<and> watchdogTimer a \<noteq> Some tid \<or>
        anextTimer a \<le> tid \<and> tid < anextTimer (cleanupAutoRequests key a) \<and>
        (\<forall>tm. atimers (cleanupAutoRequests key a) tid = Some tm \<longrightarrow> callback tm \<noteq> WatchdogCheck)"
    using stored_state [OF inv, of key _ tid]
    by (auto simp: cleanup_fields split: option.splits)
next
  fix h
  assume "h \<in> stored_handles (cleanupAutoRequests key a)"
  then show "h \<in> stored_handles a \<or> anextTimer a \<le> h \<and> h < anextTimer (cleanupAutoRequests key a)"
    by (auto simp: stored_handles_def cleanup_fields cleanupAutoRequests_def Let_def clearTimer_def
        split: option.splits if_splits)
qed (auto simp: cleanupAutoRequests_def Let_def clearTimer_def split: option.splits)

lemma install_wd:
  assumes inv: "wd_inv a"
    and st: "state_timers st = {anextTimer a, anextTimer a + 1}"
    and tick: "tick = AuthRetryTick \<or> tick = PingKeepaliveTick"
  shows "wd_inv (install key tick st a)"
proof (rule wd_frame [OF inv])
  fix tid
  show "atimers (install key tick st a) tid = atimers a tid \<or>
        atimers (install key tick st a) tid = None \<and> watchdogTimer a \<noteq> Some tid \<or>
        anextTimer a \<le> tid \<and> tid < anextTimer (install key tick st a) \<and>
        (\<forall>tm. atimers (install key tick st a) tid = Some tm \<longrightarrow> callback tm \<noteq> WatchdogCheck)"
    using tick by (auto simp: install_fields)
next
  fix h
  assume "h \<in> stored_handles (install key tick st a)"
  then show "h \<in> stored_handles a \<or> anextTimer a \<le> h \<and> h < anextTimer (install key tick st a)"
    using st
    by (auto simp: stored_handles_def install_fields install_def Let_def setTimer_def
        split: if_splits)
qed (auto simp: install_def Let_def setTimer_def)

lemma startAuthRetry_wd:
  "wd_inv a \<Longrightarrow> wd_inv (startAuthRetry deviceId authToken ip port meth bdy now a)"
  unfolding startAuthRetry_install Let_def
  by (rule install_wd) (auto simp: cleanup_wd cleanup_fields state_timers_def)

lemma startPingKeepalive_wd:
  "wd_inv a \<Longrightarrow> wd_inv (startPingKeepalive deviceId authToken ip port now a)"
  unfolding startPingKeepalive_install Let_def
  by (rule install_wd) (auto simp: cleanup_wd cleanup_fields state_timers_def)

lemma wsSend_wd: "wd_inv a \<Longrightarrow> wsSend m a = Some a' \<Longrightarrow> wd_inv a'"
  by (erule wd_frame) (auto simp: wsSend_def stored_handles_def split: option.splits if_splits)

lemma issueCall_wd:
  assumes inv: "wd_inv a"
    and k: "\<And>st h. k = AuthRetryCont st \<Longrightarrow> h \<in> state_timers st \<Longrightarrow> h \<in> stored_handles a"
  shows "wd_inv (issueCall k a)"
proof (rule wd_frame [OF inv])
  fix h
  assume "h \<in> stored_handles (issueCall k a)"
  then show "h \<in> stored_handles a \<or> anextTimer a \<le> h \<and> h < anextTimer (issueCall k a)"
    using k by (auto simp: stored_handles_def issueCall_def split: if_splits)
qed (auto simp: issueCall_def)

lemma resetWatchdog_wd: "wd_inv a \<Longrightarrow> wd_inv (resetWatchdog now a)"
  by (erule wd_frame) (auto simp: resetWatchdog_def stored_handles_def)

lemma clear_stored_wd:
  assumes inv: "wd_inv a" and h: "watchdogTimer a \<noteq> Some t"
  shows "wd_inv (clearTimer t a)"
  by (rule wd_frame [OF inv]) (use h in \<open>auto simp: clearTimer_def stored_handles_def\<close>)

lemma authRetryDone_wd:
  assumes inv: "wd_inv a"
    and st: "\<And>h. h \<in> state_timers st \<Longrightarrow> watchdogTimer a \<noteq> Some h"
  shows "wd_inv (authRetryDone st res now a)"
proof (cases res)
  case (HttpError e)
  with inv show ?thesis by (simp add: authRetryDone_def)
next
  case (HttpResponse code hs dat)
  let ?a1 = "case intervalTimer st of None \<Rightarrow> a | Some t \<Rightarrow> clearTimer t a"
  let ?a2 = "case timeoutTimer st of None \<Rightarrow> ?a1 | Some t \<Rightarrow> clearTimer t ?a1"
  have w1: "watchdogTimer ?a1 = watchdogTimer a"
    by (simp add: clearTimer_def split: option.splits)
  have 1: "wd_inv ?a1"
  proof (cases "intervalTimer st")
    case None
    with inv show ?thesis by simp
  next
    case (Some t)
    with st [of t] have "watchdogTimer a \<noteq> Some t" by (simp add: state_timers_def)
    from clear_stored_wd [OF inv this] Some show ?thesis by simp
  qed
  have 2: "wd_inv ?a2"
  proof (cases "timeoutTimer st")
    case None
    with 1 show ?thesis by simp
  next
    case (Some t)
    with st [of t] w1 have "watchdogTimer ?a1 \<noteq> Some t" by (simp add: state_timers_def)
    from clear_stored_wd [OF 1 this] Some show ?thesis by simp
  qed
  with inv HttpResponse show ?thesis
    by (simp add: authRetryDone_def Let_def startPingKeepalive_wd)
qed

lemma autoRequestTrigger_wd: "wd_inv a \<Longrightarrow> wd_inv (autoRequestTrigger m ip res now a)"
  by (auto simp: autoRequestTrigger_def startAuthRetry_wd startPingKeepalive_wd
      split: http_outcome.splits option.splits)

lemma apiRequestDone_wd: "wd_inv a \<Longrightarrow> wd_inv (apiRequestDone m res now a)"
  by (auto simp: apiRequestDone_def Let_def autoRequestTrigger_wd
      split: option.splits intro: wsSend_wd [OF autoRequestTrigger_wd])

lemma handleMessage_wd: "wd_inv a \<Longrightarrow> wd_inv (handleMessage m now a)"
  by (cases m)
    (auto split: option.splits
      intro: wsSend_wd resetWatchdog_wd [OF wsSend_wd] issueCall_wd)

lemma wd_unarmed_frame:
  assumes inv: "wd_inv a"
    and u: "watchdogTimer a' = None"
    and c: "isConnected a' \<Longrightarrow> exited a'"
    and l: "\<And>s. agent_ws a' = Some s \<Longrightarrow> sockets a' s = Some CONNECTING \<or> sockets a' s = Some OPEN"
    and n: "anextTimer a \<le> anextTimer a'"
    and t: "\<And>tid. (atimers a' tid = atimers a tid \<and> watchdogTimer a \<noteq> Some tid) \<or>
              atimers a' tid = None \<or>
              (anextTimer a \<le> tid \<and> tid < anextTimer a' \<and>
               (\<forall>tm. atimers a' tid = Some tm \<longrightarrow> callback tm \<noteq> WatchdogCheck))"
    and h: "\<And>h. h \<in> stored_handles a' \<Longrightarrow>
              h \<in> stored_handles a \<or> (anextTimer a \<le> h \<and> h < anextTimer a')"
  shows "wd_inv a'"
proof -
  have 1: "\<forall>tid tm. atimers a' tid = Some tm \<longrightarrow> tid < anextTimer a'"
  proof (intro allI impI)
    fix tid tm assume x: "atimers a' tid = Some tm"
    from t [of tid] x wd_inv_bound [OF inv, of tid tm] n show "tid < anextTimer a'" by auto
  qed
  have 2: "\<forall>tid tm. atimers a' tid = Some tm \<longrightarrow> callback tm = WatchdogCheck \<longrightarrow>
        watchdogTimer a' = Some tid"
  proof (intro allI impI)
    fix tid tm assume x: "atimers a' tid = Some tm" "callback tm = WatchdogCheck"
    from t [of tid] x wd_inv_only [OF inv, of tid tm] show "watchdogTimer a' = Some tid" by auto
  qed
  have 6: "\<forall>h \<in> stored_handles a'. h < anextTimer a' \<and> watchdogTimer a' \<noteq> Some h"
  proof
    fix x assume "x \<in> stored_handles a'"
    from h [OF this] wd_inv_stored [OF inv, of x] n u
    show "x < anextTimer a' \<and> watchdogTimer a' \<noteq> Some x" by auto
  qed
  have 3: "\<forall>w. watchdogTimer a' = Some w \<longrightarrow>
        atimers a' w = Some \<lparr> callback = WatchdogCheck, delay_ms = 10000, repeats = True \<rparr> \<and>
        lastPingTime a' \<noteq> None \<and> isConnected a' \<and> \<not> exited a' \<and>
        (\<exists>s. agent_ws a' = Some s \<and> sockets a' s = Some OPEN)"
    using u by simp
  have 4: "\<forall>s. agent_ws a' = Some s \<longrightarrow> sockets a' s = Some CONNECTING \<or> sockets a' s = Some OPEN"
    using l by blast
  have 5: "isConnected a' \<longrightarrow> exited a' \<or> watchdogTimer a' \<noteq> None"
    using c by blast
  show ?thesis unfolding wd_inv_def
    by (intro conjI) (rule 1, rule 2, rule 3, rule 4, rule 5, rule 6)
qed

lemma wd_armed_frame:
  assumes inv: "wd_inv a"
    and w: "watchdogTimer a' = Some (anextTimer a)" "anextTimer a' = anextTimer a + 1"
      "atimers a' (anextTimer a) = Some \<lparr> callback = WatchdogCheck, delay_ms = 10000, repeats = True \<rparr>"
      "lastPingTime a' \<noteq> None" "isConnected a'" "\<not> exited a'"
      "\<exists>s. agent_ws a' = Some s \<and> sockets a' s = Some OPEN"
    and l: "\<And>s. agent_ws a' = Some s \<Longrightarrow> sockets a' s = Some CONNECTING \<or> sockets a' s = Some OPEN"
    and t: "\<And>tid. tid \<noteq> anextTimer a \<Longrightarrow>
              (atimers a' tid = atimers a tid \<and> watchdogTimer a \<noteq> Some tid) \<or> atimers a' tid = None"
    and h: "\<And>h. h \<in> stored_handles a' \<Longrightarrow> h \<in> stored_handles a"
  shows "wd_inv a'"
proof -
  have 1: "\<forall>tid tm. atimers a' tid = Some tm \<longrightarrow> tid < anextTimer a'"
  proof (intro allI impI)
    fix tid tm assume x: "atimers a' tid = Some tm"
    show "tid < anextTimer a'"
    proof (cases "tid = anextTimer a")
      case True
      with w(2) show ?thesis by simp
    next
      case False
      from t [OF False] x wd_inv_bound [OF inv, of tid tm] w(2) show ?thesis by auto
    qed
  qed
  have 2: "\<forall>tid tm. atimers a' tid = Some tm \<longrightarrow> callback tm = WatchdogCheck \<longrightarrow>
        watchdogTimer a' = Some tid"
  proof (intro allI impI)
    fix tid tm assume x: "atimers a' tid = Some tm" "callback tm = WatchdogCheck"
    show "watchdogTimer a' = Some tid"
    proof (cases "tid = anextTimer a")
      case True
      with w(1) show ?thesis by simp
    next
      case False
      from t [OF False] x wd_inv_only [OF inv, of tid tm] show ?thesis by auto
    qed
  qed
  have 6: "\<forall>h \<in> stored_handles a'. h < anextTimer a' \<and> watchdogTimer a' \<noteq> Some h"
  proof
    fix x assume "x \<in> stored_handles a'"
    from wd_inv_stored [OF inv h [OF this]] w(1,2)
    show "x < anextTimer a' \<and> watchdogTimer a' \<noteq> Some x" by auto
  qed
  have 3: "\<forall>w. watchdogTimer a' = Some w \<longrightarrow>
        atimers a' w = Some \<lparr> callback = WatchdogCheck, delay_ms = 10000, repeats = True \<rparr> \<and>
        lastPingTime a' \<noteq> None \<and> isConnected a' \<and> \<not> exited a' \<and>
        (\<exists>s. agent_ws a' = Some s \<and> sockets a' s = Some OPEN)"
    using w by simp
  have 4: "\<forall>s. agent_ws a' = Some s \<longrightarrow> sockets a' s = Some CONNECTING \<or> sockets a' s = Some OPEN"
    using l by blast
  have 5: "isConnected a' \<longrightarrow> exited a' \<or> watchdogTimer a' \<noteq> None"
    using w(1) by simp
  show ?thesis unfolding wd_inv_def
    by (intro conjI) (rule 1, rule 2, rule 3, rule 4, rule 5, rule 6)
qed

lemma connect_wd:
  assumes inv: "wd_inv a"
  shows "wd_inv (connect a)"
proof (cases "agent_ws a")
  case None
  then have u: "watchdogTimer a = None"
    using wd_inv_armed [OF inv] by (cases "watchdogTimer a") auto
  show ?thesis
  proof (rule wd_unarmed_frame [OF inv])
    show "isConnected (connect a) \<Longrightarrow> exited (connect a)"
      using wd_inv_connected [OF inv] u None by (simp add: connect_def Let_def)
  qed (use None u in \<open>auto simp: connect_def Let_def stored_handles_def\<close>)
next
  case (Some s)
  from wd_inv_live [OF inv Some] Some have "connect a = a\<lparr> connectCalls := connectCalls a + 1 \<rparr>"
    by (auto simp: connect_def Let_def)
  then show ?thesis
    by (simp only:) (rule wd_frame [OF inv], auto simp: stored_handles_def)
qed

lemma watchdogCheck_wd:
  assumes inv: "wd_inv a"
  shows "wd_inv (watchdogCheck now a)"
proof (cases "now - (case lastPingTime a of None \<Rightarrow> 0 | Some t \<Rightarrow> t) > PING_TIMEOUT_MS")
  case False
  with inv show ?thesis by (simp add: watchdogCheck_def Let_def)
next
  case True
  show ?thesis
  proof (rule wd_unarmed_frame [OF inv])
    fix tid
    show "atimers (watchdogCheck now a) tid = atimers a tid \<and> watchdogTimer a \<noteq> Some tid \<or>
          atimers (watchdogCheck now a) tid = None \<or>
          anextTimer a \<le> tid \<and> tid < anextTimer (watchdogCheck now a) \<and>
          (\<forall>tm. atimers (watchdogCheck now a) tid = Some tm \<longrightarrow> callback tm \<noteq> WatchdogCheck)"
      using True
      by (auto simp: watchdogCheck_def Let_def stopWatchdog_def clearTimer_def setTimer_def
          terminate_def split: option.splits)
  qed (use True in \<open>auto simp: watchdogCheck_def Let_def stopWatchdog_def clearTimer_def
        setTimer_def terminate_def stored_handles_def split: option.splits\<close>)
qed

lemma onWsClose_wd:
  assumes inv: "wd_inv a"
  shows "wd_inv (onWsClose s a)"
proof (rule wd_unarmed_frame [OF inv])
  fix tid
  show "atimers (onWsClose s a) tid = atimers a tid \<and> watchdogTimer a \<noteq> Some tid \<or>
        atimers (onWsClose s a) tid = None \<or>
        anextTimer a \<le> tid \<and> tid < anextTimer (onWsClose s a) \<and>
        (\<forall>tm. atimers (onWsClose s a) tid = Some tm \<longrightarrow> callback tm \<noteq> WatchdogCheck)"
    by (auto simp: onWsClose_def Let_def stopWatchdog_def clearTimer_def setTimer_def
        split: option.splits)
qed (auto simp: onWsClose_def Let_def stopWatchdog_def clearTimer_def setTimer_def
      stored_handles_def split: option.splits)

lemma onWsOpen_wd:
  assumes inv: "wd_inv a" and ne: "\<not> exited a"
  shows "wd_inv (onWsOpen s now a)"
proof -
  let ?a1 = "a\<lparr> sockets := (sockets a)(s \<mapsto> OPEN), isConnected := True \<rparr>"
  show ?thesis
  proof (cases "wsSend RegisterOut ?a1")
    case None
    have u: "watchdogTimer a = None"
    proof (cases "watchdogTimer a")
      case (Some w)
      from wd_inv_armed [OF inv Some] None show ?thesis
        by (auto simp: wsSend_def split: option.splits if_splits)
    qed simp
    have e: "onWsOpen s now a = ?a1\<lparr> exited := True \<rparr>"
      using None by (simp add: onWsOpen_def Let_def)
    show ?thesis unfolding e
    proof (rule wd_unarmed_frame [OF inv])
      fix s'
      assume "agent_ws (?a1\<lparr> exited := True \<rparr>) = Some s'"
      with wd_inv_live [OF inv, of s']
      show "sockets (?a1\<lparr> exited := True \<rparr>) s' = Some CONNECTING \<or>
            sockets (?a1\<lparr> exited := True \<rparr>) s' = Some OPEN"
        by auto
    qed (use u in \<open>auto simp: stored_handles_def\<close>)
  next
    case (Some a2)
    then obtain s' where ws: "agent_ws a = Some s'" and op: "s' = s \<or> sockets a s' = Some OPEN"
      and a2: "a2 = ?a1\<lparr> wsSent := wsSent a @ [(s', RegisterOut)] \<rparr>"
      by (auto simp: wsSend_def split: option.splits if_splits)
    let ?a3 = "case reconnectTimer a2 of None \<Rightarrow> a2
               | Some t \<Rightarrow> (clearTimer t a2)\<lparr> reconnectTimer := None \<rparr>"
    have e: "onWsOpen s now a = startWatchdog now ?a3"
      using Some by (simp add: onWsOpen_def Let_def)
    have n: "anextTimer ?a3 = anextTimer a"
      by (simp add: a2 clearTimer_def split: option.splits)
    have r: "\<And>t. reconnectTimer a = Some t \<Longrightarrow> watchdogTimer a \<noteq> Some t"
      using stored_reconnect [OF inv] by blast
    have b: "\<And>w. watchdogTimer a = Some w \<Longrightarrow> w \<noteq> anextTimer a"
      using wd_inv_armed [OF inv] wd_inv_bound [OF inv] by fastforce
    show ?thesis unfolding e
    proof (rule wd_armed_frame [OF inv])
      fix tid
      assume "tid \<noteq> anextTimer a"
      then show "atimers (startWatchdog now ?a3) tid = atimers a tid \<and> watchdogTimer a \<noteq> Some tid \<or>
            atimers (startWatchdog now ?a3) tid = None"
        by (auto simp: startWatchdog_def Let_def setTimer_def clearTimer_def a2 split: option.splits)
    next
      show "atimers (startWatchdog now ?a3) (anextTimer a) =
          Some \<lparr> callback = WatchdogCheck, delay_ms = 10000, repeats = True \<rparr>"
        using b
        by (auto simp: startWatchdog_def Let_def setTimer_def clearTimer_def a2 split: option.splits)
    next
      show "\<exists>x. agent_ws (startWatchdog now ?a3) = Some x \<and> sockets (startWatchdog now ?a3) x = Some OPEN"
        using ws op
        by (auto simp: startWatchdog_def Let_def setTimer_def clearTimer_def a2 split: option.splits)
    next
      fix x
      assume "agent_ws (startWatchdog now ?a3) = Some x"
      then show "sockets (startWatchdog now ?a3) x = Some CONNECTING \<or>
                 sockets (startWatchdog now ?a3) x = Some OPEN"
        using ws op
        by (auto simp: startWatchdog_def Let_def setTimer_def clearTimer_def a2 split: option.splits)
    qed (use ne in \<open>auto simp: startWatchdog_def Let_def setTimer_def clearTimer_def a2
          stored_handles_def split: option.splits\<close>)
  qed
qed

lemma tick_stored:
  assumes au: "auto_inv a"
    and x: "atimers a tid = Some tm" "callback tm = AuthRetryTick st \<or> callback tm = PingKeepaliveTick st"
    and h: "h \<in> state_timers st"
  shows "h \<in> stored_handles a"
proof -
  from x have "owner (callback tm) = Some (state_key st)" by auto
  with au x(1) obtain s where s: "autoRequestStates a (state_key st) = Some s"
    "belongs (callback tm) tid s"
    unfolding auto_inv_def inv_owned_def by blast
  with x(2) have "s = st" by auto
  with s(1) h show ?thesis by (auto simp: stored_handles_def)
qed

lemma timerFired_wd:
  assumes au: "auto_inv a" and inv: "wd_inv a"
  shows "wd_inv (timerFired tid now a)"
proof (cases "atimers a tid")
  case None
  with inv show ?thesis by (simp add: timerFired_def)
next
  case (Some tm)
  let ?a1 = "if repeats tm then a else clearTimer tid a"
  have nw: "\<not> repeats tm \<Longrightarrow> watchdogTimer a \<noteq> Some tid"
    using wd_inv_armed [OF inv, of tid] Some by auto
  have a1: "wd_inv ?a1"
    using inv nw by (simp add: clear_stored_wd)
  have au1: "auto_inv ?a1" using au by (simp add: clearTimer_inv)
  have "wd_inv (case callback tm of
                RemoveDevice deviceId \<Rightarrow> removeDevice deviceId ?a1
              | WatchdogCheck \<Rightarrow> watchdogCheck now ?a1
              | Reconnect \<Rightarrow> connect ?a1
              | ReconnectAfterClose \<Rightarrow> connect (?a1\<lparr> reconnectTimer := None \<rparr>)
              | AuthRetryTick st \<Rightarrow> issueCall (AuthRetryCont st) ?a1
              | PingKeepaliveTick st \<Rightarrow> issueCall (PingKeepaliveCont st) ?a1
              | AutoRequestExpiry stateKey \<Rightarrow> cleanupAutoRequests stateKey ?a1)"
  proof (cases "callback tm")
    case ReconnectAfterClose
    have "wd_inv (?a1\<lparr> reconnectTimer := None \<rparr>)"
      by (rule wd_frame [OF a1]) (auto simp: stored_handles_def)
    with ReconnectAfterClose show ?thesis by (simp add: connect_wd)
  next
    case (AuthRetryTick st)
    have "wd_inv (issueCall (AuthRetryCont st) ?a1)"
    proof (rule issueCall_wd [OF a1])
      fix st' h
      assume "AuthRetryCont st = AuthRetryCont st'" "h \<in> state_timers st'"
      then have h: "h \<in> state_timers st" by simp
      from tick_stored [OF au Some _ h] AuthRetryTick have "h \<in> stored_handles a" by simp
      then show "h \<in> stored_handles ?a1" by (simp add: stored_handles_def clearTimer_def)
    qed
    with AuthRetryTick show ?thesis by simp
  next
    case (PingKeepaliveTick st)
    have "wd_inv (issueCall (PingKeepaliveCont st) ?a1)"
      by (rule issueCall_wd [OF a1]) simp
    with PingKeepaliveTick show ?thesis by simp
  qed (use a1 in \<open>simp_all add: removeDevice_wd watchdogCheck_wd cleanup_wd connect_wd\<close>)
  with Some show ?thesis by (simp add: timerFired_def Let_def)
qed

lemma callDone_wd:
  assumes inv: "wd_inv a"
  shows "wd_inv (callDone cid res now a)"
proof (cases "inflight a cid")
  case None
  with inv show ?thesis by (simp add: callDone_def)
next
  case (Some k)
  let ?a1 = "a\<lparr> inflight := (inflight a)(cid := None) \<rparr>"
  have a1: "wd_inv ?a1"
    by (rule wd_frame [OF inv]) (auto simp: stored_handles_def split: if_splits)
  show ?thesis
  proof (cases k)
    case (AuthRetryCont st)
    have "wd_inv (authRetryDone st res now ?a1)"
    proof (rule authRetryDone_wd [OF a1])
      fix h assume "h \<in> state_timers st"
      from stored_inflight [OF inv _ this, of cid] Some AuthRetryCont
      show "watchdogTimer ?a1 \<noteq> Some h" by simp
    qed
    with Some AuthRetryCont show ?thesis by (simp add: callDone_def Let_def)
  qed (use Some a1 in \<open>simp_all add: callDone_def Let_def apiRequestDone_wd\<close>)
qed

lemma agent_inv_init: "agent_inv agent_init"
  by (simp add: agent_inv_def auto_inv_init wd_inv_init)

lemma deliver_wd: "auto_inv a \<Longrightarrow> wd_inv a \<Longrightarrow> \<not> exited a \<Longrightarrow> wd_inv (deliver a ev)"
  by (cases ev)
    (simp_all add: onUp_wd onDown_wd handleMessage_wd timerFired_wd callDone_wd
      connect_wd onWsOpen_wd onWsClose_wd)

lemma agent_step_agent_inv: "agent_inv a \<Longrightarrow> agent_inv (agent_step a ev)"
  by (simp add: agent_inv_def agent_step_def deliver_inv deliver_wd)

lemma agent_run_agent_inv: "agent_inv a \<Longrightarrow> agent_inv (agent_run a evs)"
  unfolding agent_run_def
  by (induction evs arbitrary: a) (simp_all add: agent_step_agent_inv)

lemma reachable_inv: "agent_inv (agent_run agent_init evs)"
  by (rule agent_run_agent_inv [OF agent_inv_init])

text \<open>The socket in the variable \<open>ws\<close> is never closing or closed.\<close>

lemma ws_live:
  assumes "agent_ws (agent_run agent_init evs) = Some s"
  shows "sockets (agent_run agent_init evs) s = Some CONNECTING \<or>
         sockets (agent_run agent_init evs) s = Some OPEN"
  using reachable_inv [of evs] assms by (simp add: agent_inv_def wd_inv_live)

section \<open>Claims about the agent\<close>

subsection \<open>C5: one timer set per state key\<close>

text \<open>
  Claim C5. In every state the agent reaches, for every key: at most one interval
  timer and at most one expiry timer are armed for the key, and every timer armed for
  it is a timer of the state stored under it (none when no state is stored). When a
  state \<open>old\<close> is stored under the key of (deviceId, authToken),
  \<open>cleanupAutoRequests\<close> clears both timers of \<open>old\<close> and deletes it, and
  \<open>startAuthRetry\<close> and \<open>startPingKeepalive\<close> each end with both timers of \<open>old\<close>
  cleared and a new state stored whose two fresh timers are the only ones armed for
  the key.
\<close>

theorem C5_one_timer_set_per_key:
  assumes a: "a = agent_run agent_init evs"
  shows "card (interval_timers a key) \<le> 1 \<and> card (expiry_timers a key) \<le> 1 \<and>
    auto_timers a key \<subseteq>
      (case autoRequestStates a key of None \<Rightarrow> {} | Some st \<Rightarrow> state_timers st) \<and>
    (\<forall>old. autoRequestStates a (getAutoRequestStateKey deviceId authToken) = Some old \<longrightarrow>
       (\<forall>t \<in> state_timers old.
          atimers (cleanupAutoRequests (getAutoRequestStateKey deviceId authToken) a) t = None) \<and>
       autoRequestStates (cleanupAutoRequests (getAutoRequestStateKey deviceId authToken) a)
         (getAutoRequestStateKey deviceId authToken) = None \<and>
       (\<forall>t \<in> state_timers old.
          atimers (startAuthRetry deviceId authToken ip port meth bdy now a) t = None) \<and>
       (\<exists>new. autoRequestStates (startAuthRetry deviceId authToken ip port meth bdy now a)
                 (getAutoRequestStateKey deviceId authToken) = Some new \<and>
              as_state new = AuthRetry \<and>
              auto_timers (startAuthRetry deviceId authToken ip port meth bdy now a)
                 (getAutoRequestStateKey deviceId authToken) = state_timers new \<and>
              state_timers new \<inter> state_timers old = {} \<and> card (state_timers new) = 2) \<and>
       (\<forall>t \<in> state_timers old.
          atimers (startPingKeepalive deviceId authToken ip port now a) t = None) \<and>
       (\<exists>new. autoRequestStates (startPingKeepalive deviceId authToken ip port now a)
                 (getAutoRequestStateKey deviceId authToken) = Some new \<and>
              as_state new = PingKeepalive \<and>
              auto_timers (startPingKeepalive deviceId authToken ip port now a)
                 (getAutoRequestStateKey deviceId authToken) = state_timers new \<and>
              state_timers new \<inter> state_timers old = {} \<and> card (state_timers new) = 2))"
proof -
  let ?K = "getAutoRequestStateKey deviceId authToken"
  from a have inv: "auto_inv a" by (simp add: agent_run_inv auto_inv_init)
  have 1: "card (interval_timers a key) \<le> 1"
    by (rule card_sub_option [OF interval_timers_sub [OF inv]])
  have 2: "card (expiry_timers a key) \<le> 1"
    by (rule card_sub_option [OF expiry_timers_sub [OF inv]])
  note 3 = auto_timers_sub [OF inv, of key]
  have 4: "(\<forall>t \<in> state_timers old. atimers (cleanupAutoRequests ?K a) t = None) \<and>
       autoRequestStates (cleanupAutoRequests ?K a) ?K = None \<and>
       (\<forall>t \<in> state_timers old.
          atimers (startAuthRetry deviceId authToken ip port meth bdy now a) t = None) \<and>
       (\<exists>new. autoRequestStates (startAuthRetry deviceId authToken ip port meth bdy now a) ?K = Some new \<and>
              as_state new = AuthRetry \<and>
              auto_timers (startAuthRetry deviceId authToken ip port meth bdy now a) ?K = state_timers new \<and>
              state_timers new \<inter> state_timers old = {} \<and> card (state_timers new) = 2) \<and>
       (\<forall>t \<in> state_timers old.
          atimers (startPingKeepalive deviceId authToken ip port now a) t = None) \<and>
       (\<exists>new. autoRequestStates (startPingKeepalive deviceId authToken ip port now a) ?K = Some new \<and>
              as_state new = PingKeepalive \<and>
              auto_timers (startPingKeepalive deviceId authToken ip port now a) ?K = state_timers new \<and>
              state_timers new \<inter> state_timers old = {} \<and> card (state_timers new) = 2)"
    if old: "autoRequestStates a ?K = Some old" for old
  proof -
    let ?n = "anextTimer a"
    let ?sa = "\<lparr> as_deviceId = deviceId, as_authToken = authToken, as_deviceIp = ip,
             as_devicePort = port, as_method = Some meth, as_body = bdy,
             as_state = AuthRetry, intervalTimer = Some ?n, timeoutTimer = Some (?n + 1),
             startTime = now \<rparr>"
    let ?sp = "\<lparr> as_deviceId = deviceId, as_authToken = authToken, as_deviceIp = ip,
             as_devicePort = port, as_method = None, as_body = None,
             as_state = PingKeepalive, intervalTimer = Some ?n, timeoutTimer = Some (?n + 1),
             startTime = now \<rparr>"
    have ea: "startAuthRetry deviceId authToken ip port meth bdy now a =
        install ?K AuthRetryTick ?sa (cleanupAutoRequests ?K a)"
      by (simp add: startAuthRetry_install Let_def cleanup_fields)
    have ep: "startPingKeepalive deviceId authToken ip port now a =
        install ?K PingKeepaliveTick ?sp (cleanupAutoRequests ?K a)"
      by (simp add: startPingKeepalive_install Let_def cleanup_fields)
    from old have c: "(\<forall>t \<in> state_timers old. atimers (cleanupAutoRequests ?K a) t = None) \<and>
       autoRequestStates (cleanupAutoRequests ?K a) ?K = None"
      by (simp add: cleanup_fields)
    have ia: "(\<forall>t \<in> state_timers old. atimers (install ?K AuthRetryTick ?sa (cleanupAutoRequests ?K a)) t = None) \<and>
         autoRequestStates (install ?K AuthRetryTick ?sa (cleanupAutoRequests ?K a)) ?K = Some ?sa \<and>
         auto_timers (install ?K AuthRetryTick ?sa (cleanupAutoRequests ?K a)) ?K = state_timers ?sa \<and>
         state_timers ?sa \<inter> state_timers old = {} \<and> card (state_timers ?sa) = 2"
      by (rule install_after_cleanup [OF inv old]) (simp_all add: state_key_def)
    have ip: "(\<forall>t \<in> state_timers old. atimers (install ?K PingKeepaliveTick ?sp (cleanupAutoRequests ?K a)) t = None) \<and>
         autoRequestStates (install ?K PingKeepaliveTick ?sp (cleanupAutoRequests ?K a)) ?K = Some ?sp \<and>
         auto_timers (install ?K PingKeepaliveTick ?sp (cleanupAutoRequests ?K a)) ?K = state_timers ?sp \<and>
         state_timers ?sp \<inter> state_timers old = {} \<and> card (state_timers ?sp) = 2"
      by (rule install_after_cleanup [OF inv old]) (simp_all add: state_key_def)
    have xa: "\<exists>new. autoRequestStates (startAuthRetry deviceId authToken ip port meth bdy now a) ?K = Some new \<and>
              as_state new = AuthRetry \<and>
              auto_timers (startAuthRetry deviceId authToken ip port meth bdy now a) ?K = state_timers new \<and>
              state_timers new \<inter> state_timers old = {} \<and> card (state_timers new) = 2"
      unfolding ea using ia by (intro exI [of _ ?sa]) simp
    have xp: "\<exists>new. autoRequestStates (startPingKeepalive deviceId authToken ip port now a) ?K = Some new \<and>
              as_state new = PingKeepalive \<and>
              auto_timers (startPingKeepalive deviceId authToken ip port now a) ?K = state_timers new \<and>
              state_timers new \<inter> state_timers old = {} \<and> card (state_timers new) = 2"
      unfolding ep using ip by (intro exI [of _ ?sp]) simp
    from ia have ia1: "\<forall>t \<in> state_timers old.
        atimers (startAuthRetry deviceId authToken ip port meth bdy now a) t = None"
      unfolding ea by (rule conjunct1)
    from ip have ip1: "\<forall>t \<in> state_timers old.
        atimers (startPingKeepalive deviceId authToken ip port now a) t = None"
      unfolding ep by (rule conjunct1)
    from c ia1 xa ip1 xp show ?thesis
      by (intro conjI) (erule conjunct1, erule conjunct2, assumption+)
  qed
  show ?thesis
    by (intro conjI allI impI 1 2 3 4 [THEN conjunct1] 4 [THEN conjunct2, THEN conjunct1]
        4 [THEN conjunct2, THEN conjunct2, THEN conjunct1]
        4 [THEN conjunct2, THEN conjunct2, THEN conjunct2, THEN conjunct1]
        4 [THEN conjunct2, THEN conjunct2, THEN conjunct2, THEN conjunct2, THEN conjunct1]
        4 [THEN conjunct2, THEN conjunct2, THEN conjunct2, THEN conjunct2, THEN conjunct2])
qed

lemma agent_retrying_eval:
  "autoRequestStates agent_retrying ''d1:tok'' = Some state0"
  by (simp add: agent_retrying_def agent_run_def agent_step_def agent_init_def onUp_def accepted_def txt_of_def
      getDeviceId_def device_of_def svc0_def falsy_def ipv4Address_def ar0_def issueCall_def
      callDone_def apiRequestDone_def autoRequestTrigger_def authMatch_def findDeviceId_def
      startAuthRetry_def cleanupAutoRequests_def getAutoRequestStateKey_def setTimer_def
      wsSend_def or_else_def Let_def state0_def)

theorem C5_witness:
  "atimers (startAuthRetry ''d1'' ''tok'' ''192.168.1.5'' 80 ''POST'' None 20 agent_retrying) 0 = None \<and>
   atimers (startAuthRetry ''d1'' ''tok'' ''192.168.1.5'' 80 ''POST'' None 20 agent_retrying) 1 = None \<and>
   atimers (startPingKeepalive ''d1'' ''tok'' ''192.168.1.5'' 80 20 agent_retrying) 0 = None \<and>
   atimers (startPingKeepalive ''d1'' ''tok'' ''192.168.1.5'' 80 20 agent_retrying) 1 = None \<and>
   autoRequestStates (cleanupAutoRequests ''d1:tok'' agent_retrying) ''d1:tok'' = None \<and>
   card (interval_timers agent_retrying ''d1:tok'') \<le> 1 \<and>
   card (expiry_timers agent_retrying ''d1:tok'') \<le> 1 \<and>
   auto_timers agent_retrying ''d1:tok'' \<subseteq> {0, 1}"
proof -
  have k: "getAutoRequestStateKey ''d1'' ''tok'' = ''d1:tok''"
    by (simp add: getAutoRequestStateKey_def)
  have t: "state_timers state0 = {0, 1}"
    by (auto simp: state_timers_def state0_def)
  note th = C5_one_timer_set_per_key [OF agent_retrying_def, of "''d1:tok''" "''d1''" "''tok''"
      "''192.168.1.5''" 80 "''POST''" None 20]
  from th [THEN conjunct2, THEN conjunct2, THEN conjunct2, rule_format, of state0]
    agent_retrying_eval k t
  have 1: "atimers (startAuthRetry ''d1'' ''tok'' ''192.168.1.5'' 80 ''POST'' None 20 agent_retrying) 0 = None \<and>
   atimers (startAuthRetry ''d1'' ''tok'' ''192.168.1.5'' 80 ''POST'' None 20 agent_retrying) 1 = None \<and>
   atimers (startPingKeepalive ''d1'' ''tok'' ''192.168.1.5'' 80 20 agent_retrying) 0 = None \<and>
   atimers (startPingKeepalive ''d1'' ''tok'' ''192.168.1.5'' 80 20 agent_retrying) 1 = None \<and>
   autoRequestStates (cleanupAutoRequests ''d1:tok'' agent_retrying) ''d1:tok'' = None"
    by simp
  from th agent_retrying_eval t
  have 2: "card (interval_timers agent_retrying ''d1:tok'') \<le> 1 \<and>
   card (expiry_timers agent_retrying ''d1:tok'') \<le> 1 \<and>
   auto_timers agent_retrying ''d1:tok'' \<subseteq> {0, 1}"
    by simp
  from 1 2 show ?thesis by simp
qed

subsection \<open>C6: debounced removal of a device\<close>

text \<open>
  Claim C6, at the input where the code departs from it. Device \<open>d1\<close> comes up,
  goes down twice and comes up again, all within the grace period. Each \<open>down\<close> arms a
  timer, and \<open>deviceRemovalTimers\<close> keeps only the second handle, so the \<open>up\<close>
  cancels only the second timer: the device is in the registry and no removal is
  recorded for it, yet when the first timer (handle 0) fires the device is deleted.
\<close>

theorem C6_second_down_leaves_uncancelled_timer:
  "map_of (deviceRegistry (agent_run agent_init [Up svc0, Down svc0, Down svc0, Up svc0])) ''d1''
     = Some (device_of svc0) \<and>
   deviceRemovalTimers (agent_run agent_init [Up svc0, Down svc0, Down svc0, Up svc0]) ''d1'' = None \<and>
   map_of (deviceRegistry (agent_run agent_init
      [Up svc0, Down svc0, Down svc0, Up svc0, TimerFired 0 600000])) ''d1'' = None"
  by (simp add: agent_run_def agent_step_def agent_init_def onUp_def onDown_def accepted_def
      txt_of_def getDeviceId_def device_of_def svc0_def falsy_def ipv4Address_def setTimer_def
      clearTimer_def timerFired_def removeDevice_def Let_def)

text \<open>
  What holds of the debounce: from a state in which no removal timer is armed for the
  device, \<open>up\<close>, \<open>down\<close>, \<open>up\<close> arms one timer of 600 seconds and cancels it; no
  removal is armed or recorded afterwards, and no timer that fires removes the device.
\<close>

lemma registry_frame:
  "deviceRegistry (clearTimer t a) = deviceRegistry a"
  "deviceRegistry (setTimer cb ms rep a) = deviceRegistry a"
  "deviceRegistry (issueCall k a) = deviceRegistry a"
  "deviceRegistry (cleanupAutoRequests key a) = deviceRegistry a"
  "deviceRegistry (stopWatchdog a) = deviceRegistry a"
  "deviceRegistry (watchdogCheck now a) = deviceRegistry a"
  "deviceRegistry (connect a) = deviceRegistry a"
  by (simp_all add: clearTimer_def setTimer_def issueCall_def cleanupAutoRequests_def
      stopWatchdog_def watchdogCheck_def terminate_def connect_def Let_def split: option.splits)

lemma timerFired_keeps_device:
  assumes none: "\<forall>t tm. atimers a t = Some tm \<longrightarrow> callback tm \<noteq> RemoveDevice d"
    and has: "map_of (deviceRegistry a) d \<noteq> None"
  shows "map_of (deviceRegistry (timerFired tid now a)) d \<noteq> None"
proof (cases "atimers a tid")
  case None
  with has show ?thesis by (simp add: timerFired_def)
next
  case (Some tm)
  let ?a1 = "if repeats tm then a else clearTimer tid a"
  have r1: "deviceRegistry ?a1 = deviceRegistry a" by (simp add: registry_frame)
  from none Some have ne: "callback tm \<noteq> RemoveDevice d" by blast
  show ?thesis
  proof (cases "callback tm")
    case (RemoveDevice d')
    with ne have "d' \<noteq> d" by simp
    with Some RemoveDevice has r1 show ?thesis
      by (simp add: timerFired_def Let_def removeDevice_def delete_conv')
  qed (use Some has r1 in \<open>simp_all add: timerFired_def Let_def registry_frame\<close>)
qed

lemma up_down_up_keeps_device:
  assumes acc: "accepted svc"
    and none: "\<forall>t tm. atimers a t = Some tm \<longrightarrow> callback tm \<noteq> RemoveDevice (getDeviceId svc)"
  shows "atimers (onDown svc (onUp svc a)) (anextTimer a) =
           Some \<lparr> callback = RemoveDevice (getDeviceId svc), delay_ms = 600000, repeats = False \<rparr> \<and>
         atimers (onUp svc (onDown svc (onUp svc a))) (anextTimer a) = None \<and>
         deviceRemovalTimers (onUp svc (onDown svc (onUp svc a))) (getDeviceId svc) = None \<and>
         (\<forall>t tm. atimers (onUp svc (onDown svc (onUp svc a))) t = Some tm \<longrightarrow>
            callback tm \<noteq> RemoveDevice (getDeviceId svc)) \<and>
         map_of (deviceRegistry (onUp svc (onDown svc (onUp svc a)))) (getDeviceId svc) \<noteq> None \<and>
         map_of (deviceRegistry (timerFired tid now (onUp svc (onDown svc (onUp svc a)))))
           (getDeviceId svc) \<noteq> None"
proof -
  let ?d = "getDeviceId svc"
  let ?a1 = "onUp svc a"
  let ?a2 = "onDown svc ?a1"
  let ?a3 = "onUp svc ?a2"
  have up_reg: "map_of (deviceRegistry (onUp svc b)) ?d \<noteq> None" for b
    using acc
    by (cases "deviceRemovalTimers b ?d"; cases "map_of (deviceRegistry b) ?d")
      (simp_all add: onUp_def Let_def clearTimer_def update_conv')
  have up_n: "anextTimer (onUp svc b) = anextTimer b" for b
    by (cases "deviceRemovalTimers b ?d") (simp_all add: onUp_def Let_def clearTimer_def)
  have up_t: "atimers (onUp svc b) t = Some tm \<Longrightarrow> atimers b t = Some tm" for b t tm
    by (cases "deviceRemovalTimers b ?d")
      (simp_all add: onUp_def Let_def clearTimer_def split: if_splits)
  have a2_t: "atimers ?a2 = (atimers ?a1)(anextTimer a \<mapsto>
      \<lparr> callback = RemoveDevice ?d, delay_ms = 600000, repeats = False \<rparr>)"
    and a2_m: "deviceRemovalTimers ?a2 ?d = Some (anextTimer a)"
    using up_reg [of a] by (auto simp: onDown_def Let_def setTimer_def up_n)
  have up_c: "atimers (onUp svc b) =
        (case deviceRemovalTimers b ?d of None \<Rightarrow> atimers b | Some t \<Rightarrow> (atimers b)(t := None))"
    and up_m: "deviceRemovalTimers (onUp svc b) ?d = None" for b
    using acc
    by (cases "deviceRemovalTimers b ?d"; simp add: onUp_def Let_def clearTimer_def)+
  have a3_t: "atimers ?a3 = (atimers ?a2)(anextTimer a := None)"
    and a3_m: "deviceRemovalTimers ?a3 ?d = None"
    using up_c [of ?a2] up_m [of ?a2] a2_m by simp_all
  have 4: "\<forall>t tm. atimers ?a3 t = Some tm \<longrightarrow> callback tm \<noteq> RemoveDevice ?d"
  proof (intro allI impI)
    fix t tm
    assume "atimers ?a3 t = Some tm"
    then have "t \<noteq> anextTimer a" and "atimers ?a1 t = Some tm"
      by (simp_all add: a3_t a2_t split: if_splits)
    from up_t [OF this(2)] none show "callback tm \<noteq> RemoveDevice ?d" by blast
  qed
  note 5 = up_reg [of ?a2]
  from timerFired_keeps_device [OF 4 5]
  have 6: "map_of (deviceRegistry (timerFired tid now ?a3)) ?d \<noteq> None" .
  from a2_t a3_t a3_m 4 5 6 show ?thesis by simp
qed

subsection \<open>C7: the connection watchdog\<close>









































lemma startWatchdog_watching:
  "watching (startWatchdog t0 b) s (anextTimer b) t0 = (agent_ws b = Some s \<and> sockets b s = Some OPEN)"
  by (cases "watchdogTimer b")
    (auto simp: watching_def startWatchdog_def Let_def setTimer_def clearTimer_def)




lemma agent_connected_eval:
  "agent_connected =
     agent_init\<lparr> agent_ws := Some 0, isConnected := True, lastPingTime := Some 0,
       watchdogTimer := Some 0,
       atimers := [0 \<mapsto> \<lparr> callback = WatchdogCheck, delay_ms = 10000, repeats = True \<rparr>],
       anextTimer := 1, sockets := [0 \<mapsto> OPEN], nextSock := 1,
       wsSent := [(0, RegisterOut)], connectCalls := 1 \<rparr>"
  by (simp add: agent_connected_def agent_run_def agent_step_def agent_init_def connect_def
      onWsOpen_def wsSend_def startWatchdog_def setTimer_def Let_def)





text \<open>
  What the scheduled reconnect does. When its timer fires after a breach, \<open>connect\<close>
  creates one new socket; a further call of \<open>connect\<close> while that socket is connecting
  or open does nothing but return.
\<close>

lemma reconnect_fires:
  assumes x: "atimers b t = Some \<lparr> callback = Reconnect, delay_ms = 1000, repeats = False \<rparr>"
    and n: "agent_ws b = None"
  shows "timerFired t now b =
      b\<lparr> atimers := (atimers b)(t := None), connectCalls := connectCalls b + 1,
         agent_ws := Some (nextSock b), sockets := (sockets b)(nextSock b \<mapsto> CONNECTING),
         nextSock := nextSock b + 1 \<rparr>"
  using assms by (simp add: timerFired_def Let_def clearTimer_def connect_def)

lemma connect_idle:
  assumes "agent_ws b = Some s" "sockets b s = Some CONNECTING \<or> sockets b s = Some OPEN"
  shows "connect b = b\<lparr> connectCalls := connectCalls b + 1 \<rparr>"
  using assms by (auto simp: connect_def Let_def)

text \<open>
  One forced reconnect cycle: the watchdog of the connected agent fires late and
  terminates socket 0; the \<open>close\<close> event of that socket arms the 5-second reconnect of
  the close handler (timer 2) beside the watchdog's (timer 1); timer 1 creates socket
  1; timer 2 then finds it connecting and creates nothing; socket 1 opens, the agent
  registers on it and the watchdog runs again, as timer 3.
\<close>

lemma forced_reconnect_cycle:
  "terminated (agent_run agent_connected
     [TimerFired 0 70001, WsClose 0, TimerFired 1 71001, TimerFired 2 75001, WsOpen 1 75100]) = [0] \<and>
   nextSock (agent_run agent_connected
     [TimerFired 0 70001, WsClose 0, TimerFired 1 71001, TimerFired 2 75001, WsOpen 1 75100]) = 2 \<and>
   connectCalls (agent_run agent_connected
     [TimerFired 0 70001, WsClose 0, TimerFired 1 71001, TimerFired 2 75001, WsOpen 1 75100]) = 3 \<and>
   wsSent (agent_run agent_connected
     [TimerFired 0 70001, WsClose 0, TimerFired 1 71001, TimerFired 2 75001, WsOpen 1 75100]) =
     [(0, RegisterOut), (1, RegisterOut)] \<and>
   sockets (agent_run agent_connected
     [TimerFired 0 70001, WsClose 0, TimerFired 1 71001, TimerFired 2 75001, WsOpen 1 75100]) 0 =
     Some CLOSED \<and>
   atimers (agent_run agent_connected
     [TimerFired 0 70001, WsClose 0, TimerFired 1 71001, TimerFired 2 75001, WsOpen 1 75100]) 1 = None \<and>
   atimers (agent_run agent_connected
     [TimerFired 0 70001, WsClose 0, TimerFired 1 71001, TimerFired 2 75001, WsOpen 1 75100]) 2 = None \<and>
   reconnectTimer (agent_run agent_connected
     [TimerFired 0 70001, WsClose 0, TimerFired 1 71001, TimerFired 2 75001, WsOpen 1 75100]) = None \<and>
   watching (agent_run agent_connected
     [TimerFired 0 70001, WsClose 0, TimerFired 1 71001, TimerFired 2 75001, WsOpen 1 75100])
     1 3 75100"
  by (simp add: agent_connected_eval agent_init_def agent_run_def agent_step_def timerFired_def
      watchdogCheck_def stopWatchdog_def terminate_def clearTimer_def setTimer_def
      onWsClose_def onWsOpen_def wsSend_def startWatchdog_def connect_def watching_def
      PING_TIMEOUT_MS_def Let_def)

subsection \<open>C8: the upsert guard of the up handler\<close>

lemma onUp_registry:
  "deviceRegistry (onUp svc a) =
     (if accepted svc \<and>
         (map_of (deviceRegistry a) (getDeviceId svc) = None \<or> \<not> falsy (ipv4Address (device_of svc)))
      then AList.update (getDeviceId svc) (device_of svc) (deviceRegistry a)
      else deviceRegistry a)"
  by (cases "deviceRemovalTimers a (getDeviceId svc)")
    (simp_all add: onUp_def Let_def clearTimer_def)

lemma ipv4Address_None:
  "(\<forall>addr \<in> set (dev_addresses d). CHR '':'' \<in> set addr) \<Longrightarrow> ipv4Address d = None"
  by (simp add: ipv4Address_def find_None_iff)

text \<open>
  Claim C8. For an \<open>up\<close> event that passes the handler's filter: an unknown
  device id is inserted; for a known id, an address list without an address free of
  \<open>:\<close> (only IPv6 addresses, or none) leaves the registry unchanged; the stored
  record is replaced only when the list holds an address free of \<open>:\<close>, and it is
  replaced whenever the first such address is not empty; no other id's record
  changes.
\<close>

theorem C8_upsert_guard:
  assumes acc: "accepted svc"
  shows "(map_of (deviceRegistry a) (getDeviceId svc) = None \<longrightarrow>
            map_of (deviceRegistry (onUp svc a)) (getDeviceId svc) = Some (device_of svc)) \<and>
         (map_of (deviceRegistry a) (getDeviceId svc) \<noteq> None \<and>
          (\<forall>addr \<in> set (dev_addresses (device_of svc)). CHR '':'' \<in> set addr) \<longrightarrow>
            deviceRegistry (onUp svc a) = deviceRegistry a) \<and>
         (map_of (deviceRegistry a) (getDeviceId svc) \<noteq> None \<and>
          deviceRegistry (onUp svc a) \<noteq> deviceRegistry a \<longrightarrow>
            (\<exists>addr \<in> set (dev_addresses (device_of svc)). CHR '':'' \<notin> set addr) \<and>
            map_of (deviceRegistry (onUp svc a)) (getDeviceId svc) = Some (device_of svc)) \<and>
         (\<not> falsy (ipv4Address (device_of svc)) \<longrightarrow>
            map_of (deviceRegistry (onUp svc a)) (getDeviceId svc) = Some (device_of svc)) \<and>
         (\<forall>k. k \<noteq> getDeviceId svc \<longrightarrow>
            map_of (deviceRegistry (onUp svc a)) k = map_of (deviceRegistry a) k)"
proof (intro conjI impI allI)
  assume "map_of (deviceRegistry a) (getDeviceId svc) = None"
  with acc show "map_of (deviceRegistry (onUp svc a)) (getDeviceId svc) = Some (device_of svc)"
    by (simp add: onUp_registry update_conv')
next
  assume "map_of (deviceRegistry a) (getDeviceId svc) \<noteq> None \<and>
          (\<forall>addr \<in> set (dev_addresses (device_of svc)). CHR '':'' \<in> set addr)"
  then have "map_of (deviceRegistry a) (getDeviceId svc) \<noteq> None"
    and "falsy (ipv4Address (device_of svc))"
    by (simp_all add: ipv4Address_None falsy_def)
  then show "deviceRegistry (onUp svc a) = deviceRegistry a"
    by (auto simp: onUp_registry)
next
  assume h: "map_of (deviceRegistry a) (getDeviceId svc) \<noteq> None \<and>
          deviceRegistry (onUp svc a) \<noteq> deviceRegistry a"
  then have "\<not> falsy (ipv4Address (device_of svc))"
    by (auto simp: onUp_registry split: if_splits)
  then have "ipv4Address (device_of svc) \<noteq> None"
    by (cases "ipv4Address (device_of svc)") (simp_all add: falsy_def)
  then show "\<exists>addr \<in> set (dev_addresses (device_of svc)). CHR '':'' \<notin> set addr"
    by (auto simp: ipv4Address_def find_None_iff)
  from h acc show "map_of (deviceRegistry (onUp svc a)) (getDeviceId svc) = Some (device_of svc)"
    by (auto simp: onUp_registry update_conv' split: if_splits)
next
  assume "\<not> falsy (ipv4Address (device_of svc))"
  with acc show "map_of (deviceRegistry (onUp svc a)) (getDeviceId svc) = Some (device_of svc)"
    by (simp add: onUp_registry update_conv')
next
  fix k
  assume "k \<noteq> getDeviceId svc"
  then show "map_of (deviceRegistry (onUp svc a)) k = map_of (deviceRegistry a) k"
    by (simp add: onUp_registry update_conv')
qed

lemma accepted_svc0: "accepted svc0"
  by (simp add: accepted_def txt_of_def svc0_def falsy_def)

lemma accepted_svc6: "accepted svc6"
  by (simp add: accepted_def txt_of_def svc6_def falsy_def)

theorem C8_witness:
  "map_of (deviceRegistry (onUp svc0 agent_init)) ''d1'' = Some (device_of svc0) \<and>
   deviceRegistry (onUp svc6 (onUp svc0 agent_init)) = deviceRegistry (onUp svc0 agent_init) \<and>
   map_of (deviceRegistry (onUp svc0b (onUp svc0 agent_init))) ''d1'' = Some (device_of svc0b)"
proof -
  have id0: "getDeviceId svc0 = ''d1''" and id6: "getDeviceId svc6 = ''d1''"
    by (simp_all add: getDeviceId_def svc0_def svc6_def)
  have new: "map_of (deviceRegistry agent_init) (getDeviceId svc0) = None"
    by (simp add: agent_init_def)
  from C8_upsert_guard [OF accepted_svc0, of agent_init] new id0
  have 1: "map_of (deviceRegistry (onUp svc0 agent_init)) ''d1'' = Some (device_of svc0)"
    by simp
  have v6: "\<forall>addr \<in> set (dev_addresses (device_of svc6)). CHR '':'' \<in> set addr"
    by (simp add: device_of_def svc6_def)
  from C8_upsert_guard [OF accepted_svc6, of "onUp svc0 agent_init"] 1 id6 v6
  have 2: "deviceRegistry (onUp svc6 (onUp svc0 agent_init)) = deviceRegistry (onUp svc0 agent_init)"
    by simp
  have acc: "accepted svc0b" and idb: "getDeviceId svc0b = ''d1''"
    and v4: "\<not> falsy (ipv4Address (device_of svc0b))"
    by (simp_all add: accepted_def txt_of_def getDeviceId_def svc0b_def svc0_def falsy_def
        ipv4Address_def device_of_def)
  from C8_upsert_guard [OF acc, of "onUp svc0 agent_init"] idb v4
  have 3: "map_of (deviceRegistry (onUp svc0b (onUp svc0 agent_init))) ''d1'' = Some (device_of svc0b)"
    by simp
  from 1 2 3 show ?thesis by simp
qed

subsection \<open>C10: auto-requests need a registered device\<close>

lemma find_SomeD: "find P xs = Some x \<Longrightarrow> x \<in> set xs \<and> P x"
  by (induction xs) (auto split: if_splits)

lemma findDeviceId_Some:
  "findDeviceId ip reg = Some i \<Longrightarrow> \<exists>d. (i, d) \<in> set reg \<and> ip \<in> set (dev_addresses d)"
  by (auto simp: findDeviceId_def dest!: find_SomeD)

lemma wsSend_auto:
  "wsSend m a = Some a' \<Longrightarrow> autoRequestStates a' = autoRequestStates a \<and> atimers a' = atimers a \<and>
     deviceRegistry a' = deviceRegistry a"
  by (auto simp: wsSend_def split: option.splits if_splits)

lemma apiRequestDone_auto:
  "autoRequestStates (apiRequestDone m res now a) =
     autoRequestStates (autoRequestTrigger m (or_else (targetIp m) []) res now a)"
  "atimers (apiRequestDone m res now a) =
     atimers (autoRequestTrigger m (or_else (targetIp m) []) res now a)"
  by (auto simp: apiRequestDone_def Let_def split: option.splits dest: wsSend_auto)

lemma trigger_changes:
  assumes "autoRequestTrigger m ip res now a \<noteq> a"
  shows "\<exists>i d tok. (i, d) \<in> set (deviceRegistry a) \<and> ip \<in> set (dev_addresses d) \<and>
           authMatch (ar_path m) = Some tok"
proof (cases "authMatch (ar_path m)")
  case None
  with assms show ?thesis by (simp add: autoRequestTrigger_def)
next
  case (Some tok)
  note tok = this
  show ?thesis
  proof (cases "findDeviceId ip (deviceRegistry a)")
    case None
    with tok assms show ?thesis by (simp add: autoRequestTrigger_def)
  next
    case (Some i)
    from findDeviceId_Some [OF this] tok show ?thesis by blast
  qed
qed

lemma takeWhile_until: "c \<notin> set xs \<Longrightarrow> takeWhile (\<lambda>x. x \<noteq> c) (xs @ c # ys) = xs"
  by (induction xs) auto

lemma dropWhile_until: "c \<notin> set xs \<Longrightarrow> dropWhile (\<lambda>x. x \<noteq> c) (xs @ c # ys) = c # ys"
  by (induction xs) auto

text \<open>
  The regular expression of the trigger: the path is \<open>/api/\<close>, a non-empty token
  without \<open>/\<close>, and \<open>/auth\<close>.
\<close>

lemma authMatch_iff:
  "authMatch path = Some tok \<longleftrightarrow> path = ''/api/'' @ tok @ ''/auth'' \<and> tok \<noteq> [] \<and> CHR ''/'' \<notin> set tok"
proof
  assume "authMatch path = Some tok"
  then have p: "take 5 path = ''/api/''"
    and t: "tok = takeWhile (\<lambda>c. c \<noteq> CHR ''/'') (drop 5 path)" "tok \<noteq> []"
    and s: "dropWhile (\<lambda>c. c \<noteq> CHR ''/'') (drop 5 path) = ''/auth''"
    by (auto simp: authMatch_def Let_def split: if_splits)
  have "path = take 5 path @ drop 5 path" by simp
  also have "drop 5 path = tok @ ''/auth''"
    using takeWhile_dropWhile_id [of "\<lambda>c. c \<noteq> CHR ''/''" "drop 5 path"] t s by simp
  finally have "path = ''/api/'' @ tok @ ''/auth''" using p by simp
  moreover have "CHR ''/'' \<notin> set tok"
    using t(1) by (auto dest: set_takeWhileD)
  ultimately show "path = ''/api/'' @ tok @ ''/auth'' \<and> tok \<noteq> [] \<and> CHR ''/'' \<notin> set tok"
    using t by simp
next
  assume a: "path = ''/api/'' @ tok @ ''/auth'' \<and> tok \<noteq> [] \<and> CHR ''/'' \<notin> set tok"
  then have "takeWhile (\<lambda>c. c \<noteq> CHR ''/'') (tok @ ''/auth'') = tok"
    and "dropWhile (\<lambda>c. c \<noteq> CHR ''/'') (tok @ ''/auth'') = ''/auth''"
    by (simp_all add: takeWhile_until dropWhile_until)
  with a show "authMatch path = Some tok"
    by (simp add: authMatch_def Let_def)
qed

text \<open>
  Claim C10. Handling an \<open>api-request\<close> with target address \<open>ip\<close>: when no
  device in the registry lists \<open>ip\<close> among its addresses, the completion of the device
  call leaves the auto-request states and the timers as they were, whatever the
  outcome of the call; if the states change, some registered device lists \<open>ip\<close> and
  the path matches the auth pattern. The part of the handler before the device call
  never touches the states or the timers, and the completion of the call runs
  \<open>apiRequestDone\<close>.
\<close>

theorem C10_auto_request_needs_registered_device:
  assumes ip: "targetIp m = Some ip" "ip \<noteq> []"
  shows "((\<forall>i d. (i, d) \<in> set (deviceRegistry a) \<longrightarrow> ip \<notin> set (dev_addresses d)) \<longrightarrow>
            autoRequestStates (apiRequestDone m res now a) = autoRequestStates a \<and>
            atimers (apiRequestDone m res now a) = atimers a) \<and>
         (autoRequestStates (apiRequestDone m res now a) \<noteq> autoRequestStates a \<longrightarrow>
            (\<exists>i d. (i, d) \<in> set (deviceRegistry a) \<and> ip \<in> set (dev_addresses d)) \<and>
            authMatch (ar_path m) \<noteq> None) \<and>
         autoRequestStates (handleMessage (ApiRequestMsg m) now a) = autoRequestStates a \<and>
         atimers (handleMessage (ApiRequestMsg m) now a) = atimers a \<and>
         (inflight a cid = Some (ApiRequestCont m) \<longrightarrow>
            callDone cid res now a = apiRequestDone m res now (a\<lparr> inflight := (inflight a)(cid := None) \<rparr>))"
proof (intro conjI impI)
  assume "\<forall>i d. (i, d) \<in> set (deviceRegistry a) \<longrightarrow> ip \<notin> set (dev_addresses d)"
  then have "autoRequestTrigger m ip res now a = a"
    using trigger_changes [of m ip res now a] by blast
  with ip show "autoRequestStates (apiRequestDone m res now a) = autoRequestStates a"
    and "atimers (apiRequestDone m res now a) = atimers a"
    by (simp_all add: apiRequestDone_auto or_else_def)
next
  assume "autoRequestStates (apiRequestDone m res now a) \<noteq> autoRequestStates a"
  with ip have "autoRequestTrigger m ip res now a \<noteq> a"
    by (auto simp: apiRequestDone_auto or_else_def)
  from trigger_changes [OF this]
  show "\<exists>i d. (i, d) \<in> set (deviceRegistry a) \<and> ip \<in> set (dev_addresses d)"
    and "authMatch (ar_path m) \<noteq> None"
    by auto
next
  from ip show "autoRequestStates (handleMessage (ApiRequestMsg m) now a) = autoRequestStates a"
    and "atimers (handleMessage (ApiRequestMsg m) now a) = atimers a"
    by (simp_all add: falsy_def issueCall_def)
next
  assume "inflight a cid = Some (ApiRequestCont m)"
  then show "callDone cid res now a = apiRequestDone m res now (a\<lparr> inflight := (inflight a)(cid := None) \<rparr>)"
    by (simp add: callDone_def Let_def)
qed

theorem C10_witness:
  "autoRequestStates (apiRequestDone ar0 (HttpError ''timeout'') 5 agent_init) = Map.empty \<and>
   atimers (apiRequestDone ar0 (HttpError ''timeout'') 5 agent_init) = Map.empty \<and>
   autoRequestStates (apiRequestDone ar0 (HttpError ''timeout'') 5 (onUp svc0 agent_init)) ''d1:tok''
     \<noteq> None \<and>
   (\<exists>i d. (i, d) \<in> set (deviceRegistry (onUp svc0 agent_init)) \<and>
      ''192.168.1.5'' \<in> set (dev_addresses d))"
proof -
  have ip: "targetIp ar0 = Some ''192.168.1.5''" "''192.168.1.5'' \<noteq> []"
    by (simp_all add: ar0_def)
  have none: "\<forall>i d. (i, d) \<in> set (deviceRegistry agent_init) \<longrightarrow>
      ''192.168.1.5'' \<notin> set (dev_addresses d)"
    by (simp add: agent_init_def)
  from C10_auto_request_needs_registered_device [OF ip, of agent_init "HttpError ''timeout''" 5] none
  have 1: "autoRequestStates (apiRequestDone ar0 (HttpError ''timeout'') 5 agent_init) = Map.empty \<and>
   atimers (apiRequestDone ar0 (HttpError ''timeout'') 5 agent_init) = Map.empty"
    by (simp add: agent_init_def)
  have before: "autoRequestStates (onUp svc0 agent_init) ''d1:tok'' = None"
    by (simp add: onUp_def Let_def accepted_svc0 agent_init_def)
  have after: "autoRequestStates (apiRequestDone ar0 (HttpError ''timeout'') 5 (onUp svc0 agent_init))
      ''d1:tok'' \<noteq> None"
    by (simp add: agent_init_def onUp_def accepted_def txt_of_def getDeviceId_def device_of_def
        svc0_def falsy_def ipv4Address_def ar0_def apiRequestDone_def autoRequestTrigger_def
        authMatch_def findDeviceId_def startAuthRetry_def cleanupAutoRequests_def
        getAutoRequestStateKey_def setTimer_def wsSend_def or_else_def Let_def)
  from before after
  have "autoRequestStates (apiRequestDone ar0 (HttpError ''timeout'') 5 (onUp svc0 agent_init))
      \<noteq> autoRequestStates (onUp svc0 agent_init)"
    by auto
  from C10_auto_request_needs_registered_device [OF ip, of "onUp svc0 agent_init"
      "HttpError ''timeout''" 5, THEN conjunct2, THEN conjunct1, rule_format, OF this, THEN conjunct1]
  have 2: "\<exists>i d. (i, d) \<in> set (deviceRegistry (onUp svc0 agent_init)) \<and>
      ''192.168.1.5'' \<in> set (dev_addresses d)" .
  from 1 after 2 show ?thesis by simp
qed

end
